theory Spec2Isabelle
  imports Main
begin

section \<open>Messages\<close>

text \<open>
  The message classes \<^verbatim>\<open>ListEndpointsRequest\<close>, \<^verbatim>\<open>ListEndpointsResponse\<close>,
  \<^verbatim>\<open>ListTrainingPipelinesRequest\<close> and \<^verbatim>\<open>ListTrainingPipelinesResponse\<close> are declared in
  the \<^verbatim>\<open>types\<close> package. The pagers read and write two of their fields only: the
  request's \<^verbatim>\<open>page_token\<close>, and the response's \<^verbatim>\<open>next_page_token\<close> together with its
  repeated item field (\<^verbatim>\<open>endpoints\<close> in \<^verbatim>\<open>ListEndpointsPager\<close>, \<^verbatim>\<open>training_pipelines\<close> in
  \<^verbatim>\<open>ListTrainingPipelinesPager\<close>). The two pager classes are the same text up to these
  names, so both are embedded once: the item type \<open>'i\<close> is \<^verbatim>\<open>Endpoint\<close> for the first and
  \<^verbatim>\<open>TrainingPipeline\<close> for the second, the field \<open>items\<close> stands for \<^verbatim>\<open>endpoints\<close> and for
  \<^verbatim>\<open>training_pipelines\<close>, and \<open>'q\<close> holds the remaining request fields (parent, filter,
  page size, read mask).
\<close>

record 'q ListRequest =
  query :: 'q
  page_token :: string

record 'i ListResponse =
  items :: "'i list"
  next_page_token :: string

section \<open>Objects, the invoker and the environment\<close>

text \<open>
  Request messages are mutable objects that the caller and the pager may both hold, so they
  live in a store: \<open>heap\<close> maps an address to the message stored there and \<open>next_addr\<close> is
  the first address never handed out (every address below it is a live object).

  The callable \<^verbatim>\<open>method\<close> is any Python callable: it may keep state of its own and it may
  raise. It is a function from its own state \<open>'w\<close> and the request it is handed (read at
  the moment of the call) to an exception or a response, and its next state. It is
  not given the store: a callable that writes to the request object it receives is outside
  this model.

  Among the exceptions two are told apart, because a generator treats them apart:
  \<^verbatim>\<open>StopIteration\<close> (and its subclasses), and \<^verbatim>\<open>RuntimeError\<close> with its message. Every other
  exception is an \<open>OtherExc\<close>. \<^verbatim>\<open>pages\<close> and \<^verbatim>\<open>__iter__\<close> are generator functions: since
  Python 3.7 (PEP 479) a \<^verbatim>\<open>StopIteration\<close> raised inside the body of a generator does not
  leave it as such, but as \<^verbatim>\<open>RuntimeError('generator raised StopIteration')\<close>; any other
  exception leaves the generator as it is. \<open>leaving_generator\<close> is that rule.

  \<open>calls\<close> is the log of the requests handed to \<^verbatim>\<open>method\<close>, oldest first. The source keeps
  no such log; it is there so that theorems can speak about the calls made.
\<close>

datatype 'x exc = StopIterationExc | RuntimeError string | OtherExc 'x

fun leaving_generator :: "'x exc \<Rightarrow> 'x exc" where
  "leaving_generator StopIterationExc = RuntimeError ''generator raised StopIteration''"
| "leaving_generator (RuntimeError msg) = RuntimeError msg"
| "leaving_generator (OtherExc e) = OtherExc e"

type_synonym ('q, 'i, 'x, 'w) invoker =
  "'w \<Rightarrow> 'q ListRequest \<Rightarrow> ('x exc + 'i ListResponse) \<times> 'w"

record ('q, 'w) env =
  heap :: "nat \<Rightarrow> 'q ListRequest"
  next_addr :: nat
  world :: 'w
  calls :: "'q ListRequest list"

text \<open>
  Modelled from the spec: the constructor call \<^verbatim>\<open>ListEndpointsRequest(request)\<close> (and
  \<^verbatim>\<open>ListTrainingPipelinesRequest(request)\<close>), whose class is not among the sources. The spec
  says that the request is copied into storage owned by the cursor: a new object with the
  fields of the given one.
\<close>

definition ListRequest_copy :: "nat \<Rightarrow> ('q, 'w) env \<Rightarrow> nat \<times> ('q, 'w) env" where
  "ListRequest_copy request s =
     (next_addr s,
      s\<lparr>heap := (heap s)(next_addr s := heap s request), next_addr := Suc (next_addr s)\<rparr>)"

section \<open>The pager\<close>

text \<open>
  The three instance attributes \<^verbatim>\<open>_method\<close>, \<^verbatim>\<open>_request\<close> and \<^verbatim>\<open>_response\<close>. The request is
  held by reference (an address), the response by value.
\<close>

record ('q, 'i, 'x, 'w) pager =
  self_method :: "('q, 'i, 'x, 'w) invoker"
  self_request :: nat
  self_response :: "'i ListResponse"

text \<open>\<^verbatim>\<open>__init__\<close>: the argument \<open>request\<close> is the address of the caller's request object.\<close>

definition pager_init ::
  "('q, 'i, 'x, 'w) invoker \<Rightarrow> nat \<Rightarrow> 'i ListResponse \<Rightarrow> ('q, 'w) env
     \<Rightarrow> ('q, 'i, 'x, 'w) pager \<times> ('q, 'w) env" where
  "pager_init method request response s =
     (case ListRequest_copy request s of
        (a, s') \<Rightarrow>
          (\<lparr>self_method = method, self_request = a, self_response = response\<rparr>, s'))"

text \<open>
  \<^verbatim>\<open>__getattr__\<close>, which Python calls for a name that the pager's own attributes do not
  resolve. The attribute lookup of the response class is not among the sources and is the
  parameter \<open>getattr\<close>.
\<close>

definition pager_getattr ::
  "('i ListResponse \<Rightarrow> string \<Rightarrow> 'a) \<Rightarrow> ('q, 'i, 'x, 'w) pager \<Rightarrow> string \<Rightarrow> 'a" where
  "pager_getattr getattr self name = getattr (self_response self) name"

subsection \<open>The generator behind \<^verbatim>\<open>pages\<close>\<close>

text \<open>
  Each read of the property \<^verbatim>\<open>pages\<close> makes a generator object in state \<open>Created\<close>; no
  line of the body has run yet. \<open>Suspended\<close> is a generator waiting at one of its two
  \<^verbatim>\<open>yield\<close> statements (both resume at the loop test), \<open>Finished\<close> one whose body has
  returned or raised.
\<close>

datatype gen_state = Created | Suspended | Finished

datatype ('x, 'r) next_result = Yield 'r | StopIteration | Raise 'x

type_synonym ('q, 'i, 'x, 'w) config =
  "gen_state \<times> ('q, 'i, 'x, 'w) pager \<times> ('q, 'w) env"

text \<open>
  One call of \<^verbatim>\<open>next\<close> on the generator: the result the consumer sees, the generator's
  new state, and the pager and environment as the body left them. An exception of
  \<^verbatim>\<open>method\<close> leaves the body, so the consumer sees it through \<open>leaving_generator\<close>.
\<close>

fun pages_next ::
  "('q, 'i, 'x, 'w) config
     \<Rightarrow> ('x exc, 'i ListResponse) next_result \<times> ('q, 'i, 'x, 'w) config" where
  "pages_next (Created, self, s) = (Yield (self_response self), (Suspended, self, s))"
| "pages_next (Suspended, self, s) =
     (if next_page_token (self_response self) \<noteq> [] then
        let a = self_request self;
            req = (heap s a)\<lparr>page_token := next_page_token (self_response self)\<rparr>;
            s1 = s\<lparr>heap := (heap s)(a := req)\<rparr>
        in (case self_method self (world s1) (heap s1 a) of
              (Inl e, w) \<Rightarrow>
                (Raise (leaving_generator e),
                 (Finished, self, s1\<lparr>world := w, calls := calls s1 @ [heap s1 a]\<rparr>))
            | (Inr r, w) \<Rightarrow>
                (Yield r,
                 (Suspended, self\<lparr>self_response := r\<rparr>,
                  s1\<lparr>world := w, calls := calls s1 @ [heap s1 a]\<rparr>)))
      else (StopIteration, (Finished, self, s)))"
| "pages_next (Finished, self, s) = (StopIteration, (Finished, self, s))"

text \<open>
  A consumer that asks the generator for a page at most \<open>n\<close> times
  (\<^verbatim>\<open>for page in pager.pages\<close>, left after \<open>n\<close> pages at the latest): the pages it was given
  in order, how the loop ended, and the configuration it leaves. \<open>Pending\<close> is the
  consumer stopping by itself, \<open>Exhausted\<close> the generator's normal end, \<open>Raised e\<close> the
  exception \<open>e\<close> reaching the consumer.
\<close>

datatype 'x outcome = Pending | Exhausted | Raised 'x

fun pages_run ::
  "nat \<Rightarrow> ('q, 'i, 'x, 'w) config
     \<Rightarrow> 'i ListResponse list \<times> 'x exc outcome \<times> ('q, 'i, 'x, 'w) config" where
  "pages_run 0 c = ([], Pending, c)"
| "pages_run (Suc n) c =
     (case pages_next c of
        (Yield r, c') \<Rightarrow> (case pages_run n c' of (rs, out, c'') \<Rightarrow> (r # rs, out, c''))
      | (StopIteration, c') \<Rightarrow> ([], Exhausted, c')
      | (Raise e, c') \<Rightarrow> ([], Raised e, c'))"

subsection \<open>The generator behind \<^verbatim>\<open>__iter__\<close>\<close>

text \<open>
  The body is \<^verbatim>\<open>for page in self.pages: yield from page.endpoints\<close>. A page may hold no
  item, so one \<^verbatim>\<open>next\<close> on this generator may fetch any number of pages, or never return;
  the generator is therefore run in small steps. \<open>IterRunning g rest\<close> is the body inside
  the loop: \<open>g\<close> is the state of the \<^verbatim>\<open>pages\<close> generator it reads, \<open>rest\<close> the items of the
  current page not yet yielded. A step yields the next item of the current page, or, when
  there is none left, asks for the next page (\<open>Fetched\<close>: nothing reaches the consumer
  yet), or ends. What the \<^verbatim>\<open>pages\<close> generator raises is never a \<^verbatim>\<open>StopIteration\<close>, so this
  body hands it on as it is.
\<close>

datatype 'i iter_state = IterCreated | IterRunning gen_state "'i list" | IterFinished

datatype ('x, 'i) iter_event = Item 'i | Fetched | Stop | Throw 'x

type_synonym ('q, 'i, 'x, 'w) iter_config =
  "'i iter_state \<times> ('q, 'i, 'x, 'w) pager \<times> ('q, 'w) env"

definition for_page ::
  "('q, 'i, 'x, 'w) config \<Rightarrow> ('x exc, 'i) iter_event \<times> ('q, 'i, 'x, 'w) iter_config" where
  "for_page c =
     (case pages_next c of
        (Yield page, (g, self, s)) \<Rightarrow> (Fetched, (IterRunning g (items page), self, s))
      | (StopIteration, (g, self, s)) \<Rightarrow> (Stop, (IterFinished, self, s))
      | (Raise e, (g, self, s)) \<Rightarrow> (Throw e, (IterFinished, self, s)))"

fun iter_step ::
  "('q, 'i, 'x, 'w) iter_config
     \<Rightarrow> ('x exc, 'i) iter_event \<times> ('q, 'i, 'x, 'w) iter_config" where
  "iter_step (IterCreated, self, s) = for_page (Created, self, s)"
| "iter_step (IterRunning g (i # rest), self, s) = (Item i, (IterRunning g rest, self, s))"
| "iter_step (IterRunning g [], self, s) = for_page (g, self, s)"
| "iter_step (IterFinished, self, s) = (Stop, (IterFinished, self, s))"

text \<open>
  A consumer of the pager's items that lets the generator take at most \<open>n\<close> steps: the
  items it was given in order, how the iteration ended, and the configuration it leaves.
\<close>

fun iter_run ::
  "nat \<Rightarrow> ('q, 'i, 'x, 'w) iter_config
     \<Rightarrow> 'i list \<times> 'x exc outcome \<times> ('q, 'i, 'x, 'w) iter_config" where
  "iter_run 0 c = ([], Pending, c)"
| "iter_run (Suc n) c =
     (case iter_step c of
        (Item i, c') \<Rightarrow> (case iter_run n c' of (is, out, c'') \<Rightarrow> (i # is, out, c''))
      | (Fetched, c') \<Rightarrow> iter_run n c'
      | (Stop, c') \<Rightarrow> ([], Exhausted, c')
      | (Throw e, c') \<Rightarrow> ([], Raised e, c'))"

text \<open>The items of the current page that an \<^verbatim>\<open>__iter__\<close> generator has not yielded yet.\<close>

fun pending_items :: "'i iter_state \<Rightarrow> 'i list" where
  "pending_items (IterRunning g rest) = rest"
| "pending_items IterCreated = []"
| "pending_items IterFinished = []"

section \<open>The page sequence as the specification words it\<close>

text \<open>
  The specification describes the page sequence over a cursor that holds a request and a
  response by value: step 1 yields the response supplied at construction; step 2 repeats,
  while the latest response's \<^verbatim>\<open>next_page_token\<close> is non-empty: set the request's
  \<^verbatim>\<open>page_token\<close> to that token, invoke \<^verbatim>\<open>method\<close> on the request, replace the retained
  response with the result, yield it; a failure of \<^verbatim>\<open>method\<close> propagates unchanged. The
  definitions below follow these words, not the source; \<open>cur_world\<close> and \<open>cur_calls\<close> are
  the invoker's state and the log of its calls.
\<close>

record ('q, 'i, 'w) cursor =
  cur_request :: "'q ListRequest"
  cur_response :: "'i ListResponse"
  cur_world :: 'w
  cur_calls :: "'q ListRequest list"

fun spec_follow_ups ::
  "nat \<Rightarrow> ('q, 'i, 'x, 'w) invoker \<Rightarrow> ('q, 'i, 'w) cursor
     \<Rightarrow> 'i ListResponse list \<times> 'x exc outcome \<times> ('q, 'i, 'w) cursor" where
  "spec_follow_ups 0 method cur = ([], Pending, cur)"
| "spec_follow_ups (Suc n) method cur =
     (if next_page_token (cur_response cur) \<noteq> [] then
        let req = (cur_request cur)\<lparr>page_token := next_page_token (cur_response cur)\<rparr>
        in (case method (cur_world cur) req of
              (Inl e, w) \<Rightarrow>
                ([], Raised e,
                 cur\<lparr>cur_request := req, cur_world := w, cur_calls := cur_calls cur @ [req]\<rparr>)
            | (Inr r, w) \<Rightarrow>
                (case spec_follow_ups n method
                        (cur\<lparr>cur_request := req, cur_response := r, cur_world := w,
                             cur_calls := cur_calls cur @ [req]\<rparr>) of
                   (rs, out, cur') \<Rightarrow> (r # rs, out, cur')))
      else ([], Exhausted, cur))"

fun spec_pages ::
  "nat \<Rightarrow> ('q, 'i, 'x, 'w) invoker \<Rightarrow> ('q, 'i, 'w) cursor
     \<Rightarrow> 'i ListResponse list \<times> 'x exc outcome \<times> ('q, 'i, 'w) cursor" where
  "spec_pages 0 method cur = ([], Pending, cur)"
| "spec_pages (Suc n) method cur =
     (case spec_follow_ups n method cur of
        (rs, out, cur') \<Rightarrow> (cur_response cur # rs, out, cur'))"

text \<open>The cursor that a pager and its environment stand for, and its write-back.\<close>

definition cursor_of :: "('q, 'i, 'x, 'w) pager \<Rightarrow> ('q, 'w) env \<Rightarrow> ('q, 'i, 'w) cursor" where
  "cursor_of self s =
     \<lparr>cur_request = heap s (self_request self), cur_response = self_response self,
      cur_world = world s, cur_calls = calls s\<rparr>"

definition store_cursor ::
  "('q, 'i, 'w) cursor \<Rightarrow> ('q, 'i, 'x, 'w) pager \<Rightarrow> ('q, 'w) env
     \<Rightarrow> ('q, 'i, 'x, 'w) pager \<times> ('q, 'w) env" where
  "store_cursor cur self s =
     (self\<lparr>self_response := cur_response cur\<rparr>,
      s\<lparr>heap := (heap s)(self_request self := cur_request cur),
        world := cur_world cur, calls := cur_calls cur\<rparr>)"

text \<open>The ending that the consumer of a generator sees, for the ending of its body.\<close>

fun delivered :: "'x exc outcome \<Rightarrow> 'x exc outcome" where
  "delivered (Raised e) = Raised (leaving_generator e)"
| "delivered Pending = Pending"
| "delivered Exhausted = Exhausted"

definition gen_after :: "'x outcome \<Rightarrow> gen_state" where
  "gen_after out = (if out = Pending then Suspended else Finished)"

text \<open>
  The requests of a run of follow-up fetches: the request \<open>req\<close> with its \<^verbatim>\<open>page_token\<close>
  set to the \<^verbatim>\<open>next_page_token\<close> of each response of \<open>rs\<close> in turn.
\<close>

definition requests_for :: "'q ListRequest \<Rightarrow> 'i ListResponse list \<Rightarrow> 'q ListRequest list" where
  "requests_for req rs = map (\<lambda>r. req\<lparr>page_token := next_page_token r\<rparr>) rs"

fun is_Raised :: "'x outcome \<Rightarrow> bool" where
  "is_Raised (Raised e) = True"
| "is_Raised _ = False"

section \<open>A caller that keeps writing to its request\<close>

text \<open>
  The caller still holds the request object it passed to \<^verbatim>\<open>__init__\<close>. \<open>Next\<close> is the caller
  asking the \<^verbatim>\<open>pages\<close> generator for a page, \<open>Assign v\<close> the caller overwriting the fields
  of its own request object (at address \<open>a\<close>) with those of \<open>v\<close>. \<open>consume a acts c\<close> runs
  such a caller and returns what each \<open>Next\<close> gave it.
\<close>

datatype 'q action = Next | Assign "'q ListRequest"

fun is_Next :: "'q action \<Rightarrow> bool" where
  "is_Next Next = True"
| "is_Next (Assign v) = False"

fun consume ::
  "nat \<Rightarrow> 'q action list \<Rightarrow> ('q, 'i, 'x, 'w) config
     \<Rightarrow> ('x exc, 'i ListResponse) next_result list \<times> ('q, 'i, 'x, 'w) config" where
  "consume a [] c = ([], c)"
| "consume a (Next # acts) c =
     (case pages_next c of
        (res, c') \<Rightarrow> (case consume a acts c' of (rs, c'') \<Rightarrow> (res # rs, c'')))"
| "consume a (Assign v # acts) (g, self, s) =
     consume a acts (g, self, s\<lparr>heap := (heap s)(a := v)\<rparr>)"

text \<open>Two environments that differ at most in the object at address \<open>a\<close>.\<close>

definition agree_except :: "nat \<Rightarrow> ('q, 'w) env \<Rightarrow> ('q, 'w) env \<Rightarrow> bool" where
  "agree_except a s t \<longleftrightarrow>
     world s = world t \<and> calls s = calls t \<and> next_addr s = next_addr t \<and>
     (\<forall>b. b \<noteq> a \<longrightarrow> heap s b = heap t b)"

section \<open>Example listings\<close>

text \<open>
  The multi-page case of the specification's testable properties: a first page with the
  token \<^verbatim>\<open>abc\<close> and two items, and a callable that answers the token \<^verbatim>\<open>abc\<close> with a last
  page of one item and fails on any other token. The callable counts its calls in its state.
  The caller's request is the object at address 0.
\<close>

definition ex_page1 :: "nat ListResponse" where
  "ex_page1 = \<lparr>items = [1, 2], next_page_token = ''abc''\<rparr>"

definition ex_page2 :: "nat ListResponse" where
  "ex_page2 = \<lparr>items = [3], next_page_token = ''''\<rparr>"

definition ex_method :: "(string, nat, string, nat) invoker" where
  "ex_method w req =
     (if page_token req = ''abc'' then Inr ex_page2 else Inl (OtherExc ''NOT_FOUND''), Suc w)"

definition ex_env :: "(string, nat) env" where
  "ex_env =
     \<lparr>heap = (\<lambda>a. \<lparr>query = ''parent'', page_token = ''''\<rparr>), next_addr = 1, world = 0,
      calls = []\<rparr>"

text \<open>The pager that \<^verbatim>\<open>__init__\<close> builds there, and the environment once both pages were read.\<close>

definition ex_pager :: "(string, nat, string, nat) pager" where
  "ex_pager = \<lparr>self_method = ex_method, self_request = 1, self_response = ex_page1\<rparr>"

definition ex_env1 :: "(string, nat) env" where
  "ex_env1 = ex_env\<lparr>heap := (heap ex_env)(1 := heap ex_env 0), next_addr := 2\<rparr>"

definition ex_env2 :: "(string, nat) env" where
  "ex_env2 =
     ex_env1\<lparr>heap := (heap ex_env1)(1 := \<lparr>query = ''parent'', page_token = ''abc''\<rparr>),
             world := 1, calls := [\<lparr>query = ''parent'', page_token = ''abc''\<rparr>]\<rparr>"

text \<open>
  A callable that answers its first call with a page that announces a further page, and
  fails on every later call.
\<close>

definition ex_page3 :: "nat ListResponse" where
  "ex_page3 = \<lparr>items = [3], next_page_token = ''def''\<rparr>"

definition ex_flaky :: "(string, nat, string, nat) invoker" where
  "ex_flaky w req = (if w = 0 then Inr ex_page3 else Inl (OtherExc ''UNAVAILABLE''), Suc w)"

text \<open>
  A callable that raises \<^verbatim>\<open>StopIteration\<close> on every call, as a mock does once the answers
  it was given are used up.
\<close>

definition ex_stop :: "(string, nat, string, nat) invoker" where
  "ex_stop w req = (Inl StopIterationExc, Suc w)"

text \<open>The two-page listing served by a callable without state: a function of the request.\<close>

definition ex_lookup :: "string ListRequest \<Rightarrow> string exc + nat ListResponse" where
  "ex_lookup req =
     (if page_token req = ''abc'' then Inr ex_page2 else Inl (OtherExc ''NOT_FOUND''))"

text \<open>
  A three-page listing: the token \<^verbatim>\<open>abc\<close> of the first page leads to a page with the token
  \<^verbatim>\<open>def\<close>, which leads to the last page.
\<close>

definition ex_chain :: "(string, nat, string, nat) invoker" where
  "ex_chain w req =
     (if page_token req = ''abc'' then Inr ex_page3
      else if page_token req = ''def'' then Inr ex_page2
      else Inl (OtherExc ''NOT_FOUND''), Suc w)"

text \<open>
  Two callables that never announce the end: every answer carries the token \<^verbatim>\<open>more\<close>. The
  first answers with pages that hold nothing, the second with pages of one item.
\<close>

definition ex_blank :: "nat ListResponse" where
  "ex_blank = \<lparr>items = [], next_page_token = ''more''\<rparr>"

definition ex_empty :: "(string, nat, string, nat) invoker" where
  "ex_empty w req = (Inr ex_blank, Suc w)"

definition ex_loop :: "(string, nat, string, nat) invoker" where
  "ex_loop w req = (Inr \<lparr>items = [w], next_page_token = ''more''\<rparr>, Suc w)"

section \<open>The gRPC transport of the endpoint service\<close>

text \<open>
  \<^verbatim>\<open>EndpointServiceGrpcTransport\<close> keeps a channel and a dictionary of stubs on the instance.
  What it calls is not among the sources and is taken as a parameter: the inherited
  constructor of \<^verbatim>\<open>EndpointServiceTransport\<close> (\<open>base_init\<close>: the values it stores in \<^verbatim>\<open>_host\<close>
  and \<^verbatim>\<open>_credentials\<close>), the class constant \<^verbatim>\<open>AUTH_SCOPES\<close>, and the two calls into the gRPC
  libraries, \<^verbatim>\<open>grpc_helpers.create_channel\<close> and \<^verbatim>\<open>Channel.unary_unary\<close>. The library calls
  have a state \<open>'w\<close> of their own and may raise (\<open>Inl\<close>). Channels \<open>'ch\<close> and stubs \<open>'st\<close> are
  object identities: equal values are one object. A serializer is named by its text in
  the source.

  The argument \<^verbatim>\<open>credentials\<close> is \<^verbatim>\<open>None\<close>, a credentials object, or (after the first
  statement of \<^verbatim>\<open>__init__\<close>) \<^verbatim>\<open>False\<close>. The argument \<^verbatim>\<open>channel\<close> is \<^verbatim>\<open>None\<close> or a channel; a
  \<^verbatim>\<open>grpc.Channel\<close> defines no truth value of its own, so \<^verbatim>\<open>if channel\<close> holds exactly when
  a channel is given.
\<close>

datatype 'c credentials = CredentialsNone | CredentialsFalse | Credentials 'c

record ('c, 'ch, 'st, 'x, 'w) outside =
  AUTH_SCOPES :: "string list"
  base_init :: "string \<Rightarrow> 'c credentials \<Rightarrow> string \<times> 'c credentials"
  grpc_helpers_create_channel ::
    "'w \<Rightarrow> string \<Rightarrow> 'c credentials \<Rightarrow> string list \<Rightarrow> ('x + 'ch) \<times> 'w"
  unary_unary :: "'w \<Rightarrow> 'ch \<Rightarrow> string \<Rightarrow> string \<Rightarrow> string \<Rightarrow> ('x + 'st) \<times> 'w"

text \<open>
  The instance: \<open>self_grpc_channel = None\<close> is an instance without the attribute
  \<^verbatim>\<open>_grpc_channel\<close>. The library's state comes with two logs that the source does not keep:
  the channels and the stubs (with the key they were made for) that the library has
  made, oldest first.
\<close>

record ('c, 'ch, 'st) transport =
  self_host :: string
  self_credentials :: "'c credentials"
  self_stubs :: "string \<rightharpoonup> 'st"
  self_grpc_channel :: "'ch option"

record ('ch, 'st, 'w) grpc_env =
  lib_state :: 'w
  channels_made :: "'ch list"
  stubs_made :: "(string \<times> 'st) list"

type_synonym ('c, 'ch, 'st, 'w) grpc_config =
  "('c, 'ch, 'st) transport \<times> ('ch, 'st, 'w) grpc_env"

text \<open>\<^verbatim>\<open>__init__\<close>.\<close>

definition transport_init ::
  "('c, 'ch, 'st, 'x, 'w) outside \<Rightarrow> string \<Rightarrow> 'c credentials \<Rightarrow> 'ch option
     \<Rightarrow> ('c, 'ch, 'st) transport" where
  "transport_init out host credentials channel =
     (let credentials1 = (if channel \<noteq> None then CredentialsFalse else credentials)
      in case base_init out host credentials1 of
           (h, c) \<Rightarrow>
             \<lparr>self_host = h, self_credentials = c, self_stubs = Map.empty,
              self_grpc_channel = (if channel \<noteq> None then channel else None)\<rparr>)"

text \<open>The class method \<^verbatim>\<open>create_channel\<close>.\<close>

definition create_channel ::
  "('c, 'ch, 'st, 'x, 'w) outside \<Rightarrow> string \<Rightarrow> 'c credentials \<Rightarrow> ('ch, 'st, 'w) grpc_env
     \<Rightarrow> ('x + 'ch) \<times> ('ch, 'st, 'w) grpc_env" where
  "create_channel out host credentials e =
     (case grpc_helpers_create_channel out (lib_state e) host credentials (AUTH_SCOPES out) of
        (Inl x, w) \<Rightarrow> (Inl x, e\<lparr>lib_state := w\<rparr>)
      | (Inr ch, w) \<Rightarrow> (Inr ch, e\<lparr>lib_state := w, channels_made := channels_made e @ [ch]\<rparr>))"

text \<open>The property \<^verbatim>\<open>grpc_channel\<close>.\<close>

definition grpc_channel ::
  "('c, 'ch, 'st, 'x, 'w) outside \<Rightarrow> ('c, 'ch, 'st, 'w) grpc_config
     \<Rightarrow> ('x + 'ch) \<times> ('c, 'ch, 'st, 'w) grpc_config" where
  "grpc_channel out c =
     (case c of
        (self, e) \<Rightarrow>
          (case self_grpc_channel self of
             None \<Rightarrow>
               (case create_channel out (self_host self) (self_credentials self) e of
                  (Inl x, e1) \<Rightarrow> (Inl x, (self, e1))
                | (Inr ch, e1) \<Rightarrow> (Inr ch, (self\<lparr>self_grpc_channel := Some ch\<rparr>, e1)))
           | Some ch \<Rightarrow> (Inr ch, (self, e))))"

text \<open>
  The seven stub properties are one text with four strings changing: the key in
  \<^verbatim>\<open>_stubs\<close>, the path of the method and the two serializers.
\<close>

type_synonym ('c, 'ch, 'st, 'x, 'w) stub_getter =
  "('c, 'ch, 'st, 'x, 'w) outside \<Rightarrow> ('c, 'ch, 'st, 'w) grpc_config
     \<Rightarrow> ('x + 'st) \<times> ('c, 'ch, 'st, 'w) grpc_config"

definition stub_property ::
  "string \<Rightarrow> string \<Rightarrow> string \<Rightarrow> string \<Rightarrow> ('c, 'ch, 'st, 'x, 'w) stub_getter" where
  "stub_property name path request_serializer response_deserializer out c =
     (case self_stubs (fst c) name of
        None \<Rightarrow>
          (case grpc_channel out c of
             (Inl x, c1) \<Rightarrow> (Inl x, c1)
           | (Inr ch, (self1, e1)) \<Rightarrow>
               (case unary_unary out (lib_state e1) ch path request_serializer
                       response_deserializer of
                  (Inl x, w) \<Rightarrow> (Inl x, (self1, e1\<lparr>lib_state := w\<rparr>))
                | (Inr st, w) \<Rightarrow>
                    (Inr st,
                     (self1\<lparr>self_stubs := (self_stubs self1)(name \<mapsto> st)\<rparr>,
                      e1\<lparr>lib_state := w, stubs_made := stubs_made e1 @ [(name, st)]\<rparr>))))
      | Some st \<Rightarrow> (Inr st, c))"

definition create_endpoint :: "('c, 'ch, 'st, 'x, 'w) stub_getter" where
  "create_endpoint =
     stub_property ''create_endpoint''
       ''/google.cloud.aiplatform.v1beta1.EndpointService/CreateEndpoint''
       ''endpoint_service.CreateEndpointRequest.serialize'' ''operations.Operation.FromString''"

definition get_endpoint :: "('c, 'ch, 'st, 'x, 'w) stub_getter" where
  "get_endpoint =
     stub_property ''get_endpoint''
       ''/google.cloud.aiplatform.v1beta1.EndpointService/GetEndpoint''
       ''endpoint_service.GetEndpointRequest.serialize'' ''endpoint.Endpoint.deserialize''"

definition list_endpoints :: "('c, 'ch, 'st, 'x, 'w) stub_getter" where
  "list_endpoints =
     stub_property ''list_endpoints''
       ''/google.cloud.aiplatform.v1beta1.EndpointService/ListEndpoints''
       ''endpoint_service.ListEndpointsRequest.serialize''
       ''endpoint_service.ListEndpointsResponse.deserialize''"

definition update_endpoint :: "('c, 'ch, 'st, 'x, 'w) stub_getter" where
  "update_endpoint =
     stub_property ''update_endpoint''
       ''/google.cloud.aiplatform.v1beta1.EndpointService/UpdateEndpoint''
       ''endpoint_service.UpdateEndpointRequest.serialize'' ''gca_endpoint.Endpoint.deserialize''"

definition delete_endpoint :: "('c, 'ch, 'st, 'x, 'w) stub_getter" where
  "delete_endpoint =
     stub_property ''delete_endpoint''
       ''/google.cloud.aiplatform.v1beta1.EndpointService/DeleteEndpoint''
       ''endpoint_service.DeleteEndpointRequest.serialize'' ''operations.Operation.FromString''"

definition deploy_model :: "('c, 'ch, 'st, 'x, 'w) stub_getter" where
  "deploy_model =
     stub_property ''deploy_model''
       ''/google.cloud.aiplatform.v1beta1.EndpointService/DeployModel''
       ''endpoint_service.DeployModelRequest.serialize'' ''operations.Operation.FromString''"

definition undeploy_model :: "('c, 'ch, 'st, 'x, 'w) stub_getter" where
  "undeploy_model =
     stub_property ''undeploy_model''
       ''/google.cloud.aiplatform.v1beta1.EndpointService/UndeployModel''
       ''endpoint_service.UndeployModelRequest.serialize'' ''operations.Operation.FromString''"

text \<open>
  A client reading properties of one transport in any order: the property read, the
  object it is given, and a sequence of reads whose results are dropped.
\<close>

datatype property =
    P_grpc_channel | P_create_endpoint | P_get_endpoint | P_list_endpoints
  | P_update_endpoint | P_delete_endpoint | P_deploy_model | P_undeploy_model

datatype ('ch, 'st) object = Channel 'ch | Stub 'st

definition lift_stub ::
  "('x + 'st) \<times> ('c, 'ch, 'st, 'w) grpc_config
     \<Rightarrow> ('x + ('ch, 'st) object) \<times> ('c, 'ch, 'st, 'w) grpc_config" where
  "lift_stub r = (case r of (Inl x, c) \<Rightarrow> (Inl x, c) | (Inr st, c) \<Rightarrow> (Inr (Stub st), c))"

fun read_property ::
  "('c, 'ch, 'st, 'x, 'w) outside \<Rightarrow> property \<Rightarrow> ('c, 'ch, 'st, 'w) grpc_config
     \<Rightarrow> ('x + ('ch, 'st) object) \<times> ('c, 'ch, 'st, 'w) grpc_config" where
  "read_property out P_grpc_channel c =
     (case grpc_channel out c of (Inl x, c1) \<Rightarrow> (Inl x, c1) | (Inr ch, c1) \<Rightarrow> (Inr (Channel ch), c1))"
| "read_property out P_create_endpoint c = lift_stub (create_endpoint out c)"
| "read_property out P_get_endpoint c = lift_stub (get_endpoint out c)"
| "read_property out P_list_endpoints c = lift_stub (list_endpoints out c)"
| "read_property out P_update_endpoint c = lift_stub (update_endpoint out c)"
| "read_property out P_delete_endpoint c = lift_stub (delete_endpoint out c)"
| "read_property out P_deploy_model c = lift_stub (deploy_model out c)"
| "read_property out P_undeploy_model c = lift_stub (undeploy_model out c)"

fun read_properties ::
  "('c, 'ch, 'st, 'x, 'w) outside \<Rightarrow> property list \<Rightarrow> ('c, 'ch, 'st, 'w) grpc_config
     \<Rightarrow> ('c, 'ch, 'st, 'w) grpc_config" where
  "read_properties out [] c = c"
| "read_properties out (p # ps) c = read_properties out ps (snd (read_property out p c))"

text \<open>
  What the instance holds for a property: the channel attribute, or the entry of
  \<^verbatim>\<open>_stubs\<close> under the property's key. \<open>grows self self1\<close>: whatever \<open>self\<close> holds, \<open>self1\<close>
  holds too.
\<close>

fun cached :: "property \<Rightarrow> ('c, 'ch, 'st) transport \<Rightarrow> ('ch, 'st) object option" where
  "cached P_grpc_channel self = map_option Channel (self_grpc_channel self)"
| "cached P_create_endpoint self = map_option Stub (self_stubs self ''create_endpoint'')"
| "cached P_get_endpoint self = map_option Stub (self_stubs self ''get_endpoint'')"
| "cached P_list_endpoints self = map_option Stub (self_stubs self ''list_endpoints'')"
| "cached P_update_endpoint self = map_option Stub (self_stubs self ''update_endpoint'')"
| "cached P_delete_endpoint self = map_option Stub (self_stubs self ''delete_endpoint'')"
| "cached P_deploy_model self = map_option Stub (self_stubs self ''deploy_model'')"
| "cached P_undeploy_model self = map_option Stub (self_stubs self ''undeploy_model'')"

definition grows :: "('c, 'ch, 'st) transport \<Rightarrow> ('c, 'ch, 'st) transport \<Rightarrow> bool" where
  "grows self self1 \<longleftrightarrow>
     (\<forall>ch. self_grpc_channel self = Some ch \<longrightarrow> self_grpc_channel self1 = Some ch) \<and>
     (\<forall>k st. self_stubs self k = Some st \<longrightarrow> self_stubs self1 k = Some st)"

text \<open>
  A gRPC library that numbers the objects it makes, an inherited constructor that stores
  its arguments as they are, and a transport built without a channel.
\<close>

definition ex_outside :: "(string, nat, nat, string, nat) outside" where
  "ex_outside =
     \<lparr>AUTH_SCOPES = [''https://www.googleapis.com/auth/cloud-platform''],
      base_init = (\<lambda>host credentials. (host, credentials)),
      grpc_helpers_create_channel = (\<lambda>w host credentials scopes. (Inr w, Suc w)),
      unary_unary = (\<lambda>w ch path request_serializer response_deserializer. (Inr w, Suc w))\<rparr>"

definition ex_transport :: "(string, nat, nat, nat) grpc_config" where
  "ex_transport =
     (transport_init ex_outside ''aiplatform.googleapis.com'' CredentialsNone None,
      \<lparr>lib_state = 0, channels_made = [], stubs_made = []\<rparr>)"

section \<open>Properties\<close>

subsection \<open>The generator runs the specification's loop\<close>

lemma store_cursor_of [simp]: "store_cursor (cursor_of self s) self s = (self, s)"
  by (simp add: store_cursor_def cursor_of_def)

lemma delivered_simps [simp]:
  "delivered out = Pending \<longleftrightarrow> out = Pending"
  "delivered out = Exhausted \<longleftrightarrow> out = Exhausted"
  "Pending = delivered out \<longleftrightarrow> out = Pending"
  "Exhausted = delivered out \<longleftrightarrow> out = Exhausted"
  "is_Raised (delivered out) = is_Raised out"
  by (cases out; simp)+

lemma pages_run_Suspended:
  "pages_run n (Suspended, self, s) =
     (case spec_follow_ups n (self_method self) (cursor_of self s) of
        (rs, out, cur) \<Rightarrow> (rs, delivered out, (gen_after out, store_cursor cur self s)))"
proof (induction n arbitrary: self s)
  case 0
  show ?case by (simp add: gen_after_def)
next
  case (Suc n)
  show ?case
    apply (simp add: Suc Let_def gen_after_def split: prod.splits sum.splits)
    apply (auto simp: cursor_of_def store_cursor_def  split: prod.splits sum.splits)
    done
qed

lemma requests_for_token [simp]:
  "requests_for (req\<lparr>page_token := t\<rparr>) rs = requests_for req rs"
  by (simp add: requests_for_def)

lemma requests_for_simps [simp]:
  "requests_for req [] = []"
  "requests_for req (r # rs) = req\<lparr>page_token := next_page_token r\<rparr> # requests_for req rs"
  by (simp_all add: requests_for_def)

lemma spec_follow_ups_Suc_cases:
  assumes "spec_follow_ups (Suc n) method cur = (rs, out, cur')"
  obtains
    (stop) "next_page_token (cur_response cur) = []" "rs = []" "out = Exhausted" "cur' = cur"
  | (fail) e w where "next_page_token (cur_response cur) \<noteq> []"
      "method (cur_world cur)
         ((cur_request cur)\<lparr>page_token := next_page_token (cur_response cur)\<rparr>) = (Inl e, w)"
      "rs = []" "out = Raised e"
      "cur' = cur\<lparr>cur_request := (cur_request cur)\<lparr>page_token := next_page_token (cur_response cur)\<rparr>,
                   cur_world := w,
                   cur_calls := cur_calls cur @
                     [(cur_request cur)\<lparr>page_token := next_page_token (cur_response cur)\<rparr>]\<rparr>"
  | (fetch) r w rs1 where "next_page_token (cur_response cur) \<noteq> []"
      "method (cur_world cur)
         ((cur_request cur)\<lparr>page_token := next_page_token (cur_response cur)\<rparr>) = (Inr r, w)"
      "rs = r # rs1"
      "spec_follow_ups n method
         (cur\<lparr>cur_request := (cur_request cur)\<lparr>page_token := next_page_token (cur_response cur)\<rparr>,
              cur_response := r, cur_world := w,
              cur_calls := cur_calls cur @
                [(cur_request cur)\<lparr>page_token := next_page_token (cur_response cur)\<rparr>]\<rparr>)
         = (rs1, out, cur')"
  using assms
  by (auto simp: Let_def split: if_splits prod.splits sum.splits)

lemma spec_follow_ups_response:
  "spec_follow_ups n method cur = (rs, out, cur') \<Longrightarrow>
     cur_response cur' = last (cur_response cur # rs)"
proof (induction n arbitrary: cur rs)
  case 0
  then show ?case by simp
next
  case (Suc n)
  from Suc.prems show ?case
  proof (cases rule: spec_follow_ups_Suc_cases)
    case stop
    then show ?thesis by simp
  next
    case (fail e w)
    then show ?thesis by simp
  next
    case (fetch r w rs1)
    from Suc.IH [OF fetch(4)] fetch(3) show ?thesis by simp
  qed
qed

lemma spec_follow_ups_calls:
  "spec_follow_ups n method cur = (rs, out, cur') \<Longrightarrow>
     cur_calls cur' = cur_calls cur @
       requests_for (cur_request cur)
         (if is_Raised out then cur_response cur # rs else butlast (cur_response cur # rs))"
proof (induction n arbitrary: cur rs)
  case 0
  then show ?case by simp
next
  case (Suc n)
  from Suc.prems show ?case
  proof (cases rule: spec_follow_ups_Suc_cases)
    case stop
    then show ?thesis by simp
  next
    case (fail e w)
    then show ?thesis by simp
  next
    case (fetch r w rs1)
    from Suc.IH [OF fetch(4)] fetch(3) show ?thesis by simp
  qed
qed

lemma spec_follow_ups_Pending:
  "spec_follow_ups n method cur = (rs, Pending, cur') \<Longrightarrow> length rs = n"
proof (induction n arbitrary: cur rs)
  case 0
  then show ?case by simp
next
  case (Suc n)
  from Suc.prems show ?case
  proof (cases rule: spec_follow_ups_Suc_cases)
    case stop
    then show ?thesis by simp
  next
    case (fail e w)
    then show ?thesis by simp
  next
    case (fetch r w rs1)
    from Suc.IH [OF fetch(4)] fetch(3) show ?thesis by simp
  qed
qed

lemma spec_follow_ups_Exhausted:
  "spec_follow_ups n method cur = (rs, Exhausted, cur') \<Longrightarrow>
     next_page_token (last (cur_response cur # rs)) = []"
proof (induction n arbitrary: cur rs)
  case 0
  then show ?case by simp
next
  case (Suc n)
  from Suc.prems show ?case
  proof (cases rule: spec_follow_ups_Suc_cases)
    case stop
    then show ?thesis by simp
  next
    case (fail e w)
    then show ?thesis by simp
  next
    case (fetch r w rs1)
    from Suc.IH [OF fetch(4)] fetch(3) show ?thesis by simp
  qed
qed

lemma spec_follow_ups_tokens:
  "spec_follow_ups n method cur = (rs, out, cur') \<Longrightarrow>
     \<forall>r \<in> set (butlast (cur_response cur # rs)). next_page_token r \<noteq> []"
proof (induction n arbitrary: cur rs)
  case 0
  then show ?case by simp
next
  case (Suc n)
  from Suc.prems show ?case
  proof (cases rule: spec_follow_ups_Suc_cases)
    case stop
    then show ?thesis by simp
  next
    case (fail e w)
    then show ?thesis by simp
  next
    case (fetch r w rs1)
    from Suc.IH [OF fetch(4)] fetch(3) fetch(1) show ?thesis by simp
  qed
qed

lemma pager_init_eq:
  "pager_init method request response s0 = (self, s) \<longleftrightarrow>
     self = \<lparr>self_method = method, self_request = next_addr s0, self_response = response\<rparr> \<and>
     s = s0\<lparr>heap := (heap s0)(next_addr s0 := heap s0 request), next_addr := Suc (next_addr s0)\<rparr>"
  by (auto simp: pager_init_def ListRequest_copy_def)

lemma cursor_of_init:
  "pager_init method request response s0 = (self, s) \<Longrightarrow>
     cursor_of self s =
       \<lparr>cur_request = heap s0 request, cur_response = response, cur_world = world s0,
        cur_calls = calls s0\<rparr>"
  by (simp add: pager_init_eq cursor_of_def)

lemma cursor_of_store_cursor:
  "store_cursor cur self s = (self', s') \<Longrightarrow> cursor_of self' s' = cur"
  by (auto simp: store_cursor_def cursor_of_def)

lemma pages_run_spec:
  assumes "pages_run n (Created, self, s) = (ps, out, (g, self', s'))"
  shows "\<exists>out0. spec_pages n (self_method self) (cursor_of self s) = (ps, out0, cursor_of self' s')
           \<and> out = delivered out0"
proof (cases n)
  case 0
  with assms have "spec_pages n (self_method self) (cursor_of self s) =
      (ps, Pending, cursor_of self' s') \<and> out = delivered Pending"
    by simp
  then show ?thesis by blast
next
  case (Suc m)
  obtain rs out1 cur
    where sp: "spec_follow_ups m (self_method self) (cursor_of self s) = (rs, out1, cur)"
    by (metis prod_cases3)
  from assms Suc sp
  have "ps = self_response self # rs" "out = delivered out1"
    "store_cursor cur self s = (self', s')"
    by (auto simp: pages_run_Suspended)
  with sp Suc have "spec_pages n (self_method self) (cursor_of self s) =
      (ps, out1, cursor_of self' s') \<and> out = delivered out1"
    by (simp add: cursor_of_store_cursor) (simp add: cursor_of_def)
  then show ?thesis by blast
qed

lemma spec_pages_calls:
  "spec_pages n method cur = (ps, out, cur') \<Longrightarrow>
     cur_calls cur' = cur_calls cur @
       requests_for (cur_request cur) (if is_Raised out then ps else butlast ps)"
proof (cases n)
  case 0
  assume "spec_pages n method cur = (ps, out, cur')"
  with 0 show ?thesis by auto
next
  case (Suc m)
  assume sp: "spec_pages n method cur = (ps, out, cur')"
  then obtain rs
    where "spec_follow_ups m method cur = (rs, out, cur')" "ps = cur_response cur # rs"
    using Suc by (auto split: prod.splits)
  then show ?thesis using spec_follow_ups_calls by blast
qed

lemma ex_init: "pager_init ex_method 0 ex_page1 ex_env = (ex_pager, ex_env1)"
  by (simp add: pager_init_eq ex_pager_def ex_env1_def ex_env_def)

lemma ex_run3:
  "pages_run 3 (Created, ex_pager, ex_env1) =
     ([ex_page1, ex_page2], Exhausted, (Finished, ex_pager\<lparr>self_response := ex_page2\<rparr>, ex_env2))"
  by (simp add: eval_nat_numeral ex_pager_def ex_env2_def ex_env1_def ex_env_def ex_method_def
        ex_page1_def ex_page2_def Let_def)

text \<open>
  C1. A pager built by \<^verbatim>\<open>__init__\<close> from \<open>method\<close>, the caller's request and \<open>response\<close>, and
  whose \<^verbatim>\<open>pages\<close> generator is asked for at most \<open>n\<close> pages, gives the consumer exactly the
  pages of the specification's loop run on the copied request and the supplied response
  (first that response, then one fetched page for as long as the latest token is
  non-empty), it ends as that loop ends (\<open>out0\<close>; an exception of \<open>method\<close> reaches the
  consumer the way a generator lets it out), and it leaves the request, the retained
  response, the invoker's state and the call log as that loop leaves them. Consequently the requests handed to
  \<open>method\<close> are, in order, the original request with its \<^verbatim>\<open>page_token\<close> set to the
  \<^verbatim>\<open>next_page_token\<close> of the page yielded just before the call: one call after every page
  but the last, and one after the last page too when that call raised. Spelled out on
  the pages themselves: the first page is the supplied response, every page but the last
  has a non-empty token, the traversal ends normally only on a last page with an empty
  token, and a consumer that stops by itself after \<open>n\<close> requests has \<open>n\<close> pages.
\<close>

theorem pages_follow_specification:
  assumes "pager_init method request response s0 = (self, s)"
      and "pages_run n (Created, self, s) = (ps, out, (g, self', s'))"
  shows "(\<exists>out0. spec_pages n method
           \<lparr>cur_request = heap s0 request, cur_response = response, cur_world = world s0,
            cur_calls = calls s0\<rparr> = (ps, out0, cursor_of self' s')
           \<and> out = delivered out0)
         \<and> calls s' = calls s0 @
             requests_for (heap s0 request) (if is_Raised out then ps else butlast ps)
         \<and> (0 < n \<longrightarrow> ps \<noteq> [] \<and> hd ps = response)
         \<and> (\<forall>r \<in> set (butlast ps). next_page_token r \<noteq> [])
         \<and> (out = Exhausted \<longrightarrow> next_page_token (last ps) = [])
         \<and> (out = Pending \<longrightarrow> length ps = n)"
proof -
  let ?cur = "\<lparr>cur_request = heap s0 request, cur_response = response, cur_world = world s0,
            cur_calls = calls s0\<rparr>"
  have m: "self_method self = method"
    using assms(1) by (simp add: pager_init_eq)
  obtain out0 where sp: "spec_pages n method ?cur = (ps, out0, cursor_of self' s')"
    and out: "out = delivered out0"
    using pages_run_spec [OF assms(2)] cursor_of_init [OF assms(1)] m by auto
  from spec_pages_calls [OF sp] out
  have cl: "calls s' = calls s0 @
          requests_for (heap s0 request) (if is_Raised out then ps else butlast ps)"
    by (simp add: cursor_of_def)
  have rest: "(0 < n \<longrightarrow> ps \<noteq> [] \<and> hd ps = response)
         \<and> (\<forall>r \<in> set (butlast ps). next_page_token r \<noteq> [])
         \<and> (out = Exhausted \<longrightarrow> next_page_token (last ps) = [])
         \<and> (out = Pending \<longrightarrow> length ps = n)"
  proof (cases n)
    case 0
    with sp out show ?thesis by simp
  next
    case (Suc k)
    with sp obtain rs where
      run: "spec_follow_ups k method ?cur = (rs, out0, cursor_of self' s')"
      and ps: "ps = response # rs"
      by (auto split: prod.splits)
    from spec_follow_ups_tokens [OF run] ps
    have "\<forall>r \<in> set (butlast ps). next_page_token r \<noteq> []"
      by simp
    moreover have "out = Exhausted \<longrightarrow> next_page_token (last ps) = []"
    proof
      assume "out = Exhausted"
      with run out have "spec_follow_ups k method ?cur = (rs, Exhausted, cursor_of self' s')"
        by simp
      from spec_follow_ups_Exhausted [OF this] ps show "next_page_token (last ps) = []"
        by simp
    qed
    moreover have "out = Pending \<longrightarrow> length ps = n"
    proof
      assume "out = Pending"
      with run out have "spec_follow_ups k method ?cur = (rs, Pending, cursor_of self' s')"
        by simp
      from spec_follow_ups_Pending [OF this] ps Suc show "length ps = n"
        by simp
    qed
    ultimately show ?thesis using ps by simp
  qed
  from sp out cl rest show ?thesis by blast
qed

theorem pages_follow_specification_witness:
  "pager_init ex_method 0 ex_page1 ex_env = (ex_pager, ex_env1)
   \<and> pages_run 3 (Created, ex_pager, ex_env1) =
       ([ex_page1, ex_page2], Exhausted, (Finished, ex_pager\<lparr>self_response := ex_page2\<rparr>, ex_env2))
   \<and> spec_pages 3 ex_method
        \<lparr>cur_request = heap ex_env 0, cur_response = ex_page1, cur_world = world ex_env,
         cur_calls = calls ex_env\<rparr> =
       ([ex_page1, ex_page2], Exhausted, cursor_of (ex_pager\<lparr>self_response := ex_page2\<rparr>) ex_env2)
   \<and> calls ex_env2 = [\<lparr>query = ''parent'', page_token = ''abc''\<rparr>]"
proof -
  have c: "calls ex_env2 = [\<lparr>query = ''parent'', page_token = ''abc''\<rparr>]"
    by (simp add: ex_env2_def)
  from pages_follow_specification [OF ex_init ex_run3] obtain out0 where
    sp: "spec_pages 3 ex_method
        \<lparr>cur_request = heap ex_env 0, cur_response = ex_page1, cur_world = world ex_env,
         cur_calls = calls ex_env\<rparr> =
       ([ex_page1, ex_page2], out0, cursor_of (ex_pager\<lparr>self_response := ex_page2\<rparr>) ex_env2)"
    and out: "Exhausted = delivered out0"
    by blast
  from out have "out0 = Exhausted"
    by (cases out0) simp_all
  with sp ex_init ex_run3 c show ?thesis by simp
qed


subsection \<open>Iterating the items\<close>

lemma iter_run_Created:
  "iter_run (Suc n) (IterCreated, self, s) = iter_run (Suc n) (IterRunning Created [], self, s)"
  by simp

lemma iter_run_rest:
  "iter_run (length rest + k) (IterRunning g rest, self, s) =
     (case iter_run k (IterRunning g [], self, s) of (is, out, c) \<Rightarrow> (rest @ is, out, c))"
  by (induction rest) (auto split: prod.splits)

lemma iter_to_pages:
  "iter_run n (IterRunning g rest, self, s) = (is, out, (st, self', s')) \<Longrightarrow>
     \<exists>m ps g'. m \<le> n \<and> pages_run m (g, self, s) = (ps, out, (g', self', s')) \<and>
       rest @ concat (map items ps) = is @ pending_items st"
proof (induction n arbitrary: g rest self s "is")
  case 0
  then have "pages_run 0 (g, self, s) = ([], out, (g, self', s')) \<and>
      rest @ concat (map items []) = is @ pending_items st"
    by auto
  then show ?case by blast
next
  case (Suc n)
  show ?case
  proof (cases rest)
    case (Cons i rest1)
    with Suc.prems obtain is1 where
      run: "iter_run n (IterRunning g rest1, self, s) = (is1, out, (st, self', s'))"
      and "is": "is = i # is1"
      by (auto split: prod.splits)
    from Suc.IH [OF run] obtain m ps g' where
      "m \<le> n" "pages_run m (g, self, s) = (ps, out, (g', self', s'))"
      "rest1 @ concat (map items ps) = is1 @ pending_items st"
      by blast
    with Cons "is" have "m \<le> Suc n \<and> pages_run m (g, self, s) = (ps, out, (g', self', s')) \<and>
       rest @ concat (map items ps) = is @ pending_items st"
      by simp
    then show ?thesis by blast
  next
    case Nil
    obtain res g1 self1 s1 where nx: "pages_next (g, self, s) = (res, (g1, self1, s1))"
      by (metis prod_cases3)
    show ?thesis
    proof (cases res)
      case (Yield page)
      with Suc.prems Nil nx
      have run: "iter_run n (IterRunning g1 (items page), self1, s1) = (is, out, (st, self', s'))"
        by (simp add: for_page_def)
      from Suc.IH [OF run] obtain m ps g' where
        m: "m \<le> n" "pages_run m (g1, self1, s1) = (ps, out, (g', self', s'))"
        "items page @ concat (map items ps) = is @ pending_items st"
        by blast
      with nx Yield Nil
      have "Suc m \<le> Suc n \<and> pages_run (Suc m) (g, self, s) = (page # ps, out, (g', self', s')) \<and>
         rest @ concat (map items (page # ps)) = is @ pending_items st"
        by simp
      then show ?thesis by blast
    next
      case StopIteration
      with Suc.prems Nil nx
      have "Suc 0 \<le> Suc n \<and> pages_run (Suc 0) (g, self, s) = ([], out, (g1, self', s')) \<and>
         rest @ concat (map items []) = is @ pending_items st"
        by (auto simp: for_page_def)
      then show ?thesis by blast
    next
      case (Raise e)
      with Suc.prems Nil nx
      have "Suc 0 \<le> Suc n \<and> pages_run (Suc 0) (g, self, s) = ([], out, (g1, self', s')) \<and>
         rest @ concat (map items []) = is @ pending_items st"
        by (auto simp: for_page_def)
      then show ?thesis by blast
    qed
  qed
qed

lemma pages_to_iter:
  "pages_run m (g, self, s) = (ps, out, (g', self', s')) \<Longrightarrow>
     \<exists>st. iter_run (m + length (concat (map items ps))) (IterRunning g [], self, s) =
       (concat (map items ps), out, (st, self', s'))"
proof (induction m arbitrary: g self s ps)
  case 0
  then show ?case by auto
next
  case (Suc m)
  obtain res g1 self1 s1 where nx: "pages_next (g, self, s) = (res, (g1, self1, s1))"
    by (metis prod_cases3)
  show ?case
  proof (cases res)
    case (Yield page)
    with Suc.prems nx obtain ps1 where
      run: "pages_run m (g1, self1, s1) = (ps1, out, (g', self', s'))" and ps: "ps = page # ps1"
      by (auto split: prod.splits)
    from Suc.IH [OF run] obtain st where
      it: "iter_run (m + length (concat (map items ps1))) (IterRunning g1 [], self1, s1) =
             (concat (map items ps1), out, (st, self', s'))"
      by blast
    have "iter_run (Suc m + length (concat (map items ps))) (IterRunning g [], self, s) =
            iter_run (length (items page) + (m + length (concat (map items ps1))))
              (IterRunning g1 (items page), self1, s1)"
      using nx Yield ps by (simp add: for_page_def add.assoc add.left_commute)
    also have "\<dots> = (concat (map items ps), out, (st, self', s'))"
      using it ps by (simp only: iter_run_rest) simp
    finally show ?thesis by blast
  next
    case StopIteration
    with Suc.prems nx show ?thesis by (auto simp: for_page_def)
  next
    case (Raise e)
    with Suc.prems nx show ?thesis by (auto simp: for_page_def)
  qed
qed

lemma ex_iter6:
  "iter_run 6 (IterCreated, ex_pager, ex_env1) =
     ([1, 2, 3], Exhausted, (IterFinished, ex_pager\<lparr>self_response := ex_page2\<rparr>, ex_env2))"
  by (simp add: eval_nat_numeral for_page_def ex_pager_def ex_env2_def ex_env1_def ex_env_def
        ex_method_def ex_page1_def ex_page2_def Let_def)

text \<open>
  C2. The items that iterating a pager yields are the items of the pages of its page
  sequence, page after page and in each page's order, and the iteration fetches nothing
  that the page traversal does not fetch. In both directions, for any pager and
  environment: a page traversal of \<open>m\<close> requests that gave the pages \<open>ps\<close> is matched by an
  item iteration that yields exactly \<open>concat (map items ps)\<close>, ends the same way and leaves
  the same pager and environment (so the same calls of \<open>method\<close>); and an item iteration
  of \<open>n\<close> steps that yielded \<open>xs\<close> is matched by a page traversal of at most \<open>n\<close> requests
  that ends the same way, leaves the same pager and environment, and whose pages hold
  exactly \<open>xs\<close> followed by the items of the current page not yet yielded.
\<close>

theorem items_are_concatenated_pages:
  "(pages_run m (Created, self, s) = (ps, out, (g, self', s')) \<longrightarrow>
      (\<exists>st. iter_run (m + length (concat (map items ps))) (IterCreated, self, s) =
              (concat (map items ps), out, (st, self', s'))))
   \<and> (iter_run n (IterCreated, self, s) = (xs, out2, (st2, self2, s2)) \<longrightarrow>
      (\<exists>k qs g2. k \<le> n \<and> pages_run k (Created, self, s) = (qs, out2, (g2, self2, s2)) \<and>
                concat (map items qs) = xs @ pending_items st2))"
proof (intro conjI impI)
  assume run: "pages_run m (Created, self, s) = (ps, out, (g, self', s'))"
  show "\<exists>st. iter_run (m + length (concat (map items ps))) (IterCreated, self, s) =
              (concat (map items ps), out, (st, self', s'))"
  proof (cases m)
    case 0
    with run show ?thesis by auto
  next
    case (Suc m')
    from pages_to_iter [OF run] Suc show ?thesis by (simp del: iter_run.simps add: iter_run_Created)
  qed
next
  assume run: "iter_run n (IterCreated, self, s) = (xs, out2, (st2, self2, s2))"
  show "\<exists>k qs g2. k \<le> n \<and> pages_run k (Created, self, s) = (qs, out2, (g2, self2, s2)) \<and>
                concat (map items qs) = xs @ pending_items st2"
  proof (cases n)
    case 0
    with run have "0 \<le> n \<and> pages_run 0 (Created, self, s) = ([], out2, (Created, self2, s2)) \<and>
                concat (map items []) = xs @ pending_items st2"
      by auto
    then show ?thesis by blast
  next
    case (Suc n')
    with run have "iter_run n (IterRunning Created [], self, s) = (xs, out2, (st2, self2, s2))"
      by (simp del: iter_run.simps add: iter_run_Created)
    from iter_to_pages [OF this] show ?thesis by simp
  qed
qed

theorem items_are_concatenated_pages_witness:
  "pages_run 3 (Created, ex_pager, ex_env1) =
     ([ex_page1, ex_page2], Exhausted, (Finished, ex_pager\<lparr>self_response := ex_page2\<rparr>, ex_env2))
   \<and> iter_run 6 (IterCreated, ex_pager, ex_env1) =
     ([1, 2, 3], Exhausted, (IterFinished, ex_pager\<lparr>self_response := ex_page2\<rparr>, ex_env2))
   \<and> (\<exists>st. iter_run (3 + length (concat (map items [ex_page1, ex_page2])))
              (IterCreated, ex_pager, ex_env1) =
            (concat (map items [ex_page1, ex_page2]), Exhausted,
             (st, ex_pager\<lparr>self_response := ex_page2\<rparr>, ex_env2)))
   \<and> (\<exists>k qs g2. k \<le> 6 \<and>
         pages_run k (Created, ex_pager, ex_env1) =
           (qs, Exhausted, (g2, ex_pager\<lparr>self_response := ex_page2\<rparr>, ex_env2)) \<and>
         concat (map items qs) = [1, 2, 3] @ pending_items IterFinished)"
  using items_are_concatenated_pages
          [of 3 ex_pager ex_env1 "[ex_page1, ex_page2]" Exhausted Finished
              "ex_pager\<lparr>self_response := ex_page2\<rparr>" ex_env2 6 "[1, 2, 3]" Exhausted
              IterFinished "ex_pager\<lparr>self_response := ex_page2\<rparr>" ex_env2]
        ex_run3 ex_iter6
  by blast


subsection \<open>What a traversal leaves behind\<close>

lemma pages_next_frame:
  "pages_next (g, self, s) = (res, (g', self', s')) \<Longrightarrow>
     self_method self' = self_method self \<and> self_request self' = self_request self \<and>
     next_addr s' = next_addr s \<and>
     (\<forall>a. a \<noteq> self_request self \<longrightarrow> heap s' a = heap s a) \<and>
     query (heap s' (self_request self)) = query (heap s (self_request self))"
  by (cases g) (auto simp: Let_def split: if_splits prod.splits sum.splits)

lemma pages_run_frame:
  "pages_run n (g, self, s) = (ps, out, (g', self', s')) \<Longrightarrow>
     self_method self' = self_method self \<and> self_request self' = self_request self \<and>
     next_addr s' = next_addr s \<and>
     (\<forall>a. a \<noteq> self_request self \<longrightarrow> heap s' a = heap s a) \<and>
     query (heap s' (self_request self)) = query (heap s (self_request self))"
proof (induction n arbitrary: g self s ps)
  case 0
  then show ?case by simp
next
  case (Suc n)
  obtain res g1 self1 s1 where nx: "pages_next (g, self, s) = (res, (g1, self1, s1))"
    by (metis prod_cases3)
  note fr = pages_next_frame [OF nx]
  show ?case
  proof (cases res)
    case (Yield page)
    with Suc.prems nx obtain ps1 where
      run: "pages_run n (g1, self1, s1) = (ps1, out, (g', self', s'))"
      by (auto split: prod.splits)
    from Suc.IH [OF run] fr show ?thesis by simp
  next
    case StopIteration
    with Suc.prems nx fr show ?thesis by auto
  next
    case (Raise e)
    with Suc.prems nx fr show ?thesis by auto
  qed
qed

lemma pages_run_add:
  "pages_run (m + n) c =
     (case pages_run m c of
        (ps, out, c') \<Rightarrow>
          if out = Pending then (case pages_run n c' of (qs, out', c'') \<Rightarrow> (ps @ qs, out', c''))
          else (ps, out, c'))"
proof (induction m arbitrary: c)
  case 0
  show ?case by (simp split: prod.splits)
next
  case (Suc m)
  show ?case
    by (cases "pages_next c") (auto simp: Suc split: prod.splits next_result.splits)
qed

lemma pages_run_Pending_gen:
  "pages_run n (Created, self, s) = (ps, Pending, (g, self', s')) \<Longrightarrow> 0 < n \<Longrightarrow>
     g = Suspended \<and> length ps = n"
proof -
  assume run: "pages_run n (Created, self, s) = (ps, Pending, (g, self', s'))" and "0 < n"
  then obtain m where n: "n = Suc m" by (cases n) auto
  obtain rs out cur where sp: "spec_follow_ups m (self_method self) (cursor_of self s) = (rs, out, cur)"
    by (metis prod_cases3)
  with run n have "out = Pending" "ps = self_response self # rs" "g = gen_after out"
    by (auto simp: pages_run_Suspended)
  with sp n spec_follow_ups_Pending [of m "self_method self" "cursor_of self s" rs cur]
  show ?thesis by (simp add: gen_after_def)
qed

lemma spec_pages_response:
  "spec_pages n method cur = (ps, out, cur') \<Longrightarrow> cur_response cur' = last (cur_response cur # ps)"
proof (cases n)
  case 0
  assume "spec_pages n method cur = (ps, out, cur')"
  with 0 show ?thesis by auto
next
  case (Suc m)
  assume sp: "spec_pages n method cur = (ps, out, cur')"
  then obtain rs
    where run: "spec_follow_ups m method cur = (rs, out, cur')" and ps: "ps = cur_response cur # rs"
    using Suc by (auto split: prod.splits)
  from spec_follow_ups_response [OF run] ps show ?thesis by simp
qed

lemma pages_run_response:
  assumes "pages_run n (Created, self, s) = (ps, out, (g, self', s'))"
  shows "self_response self' = last (self_response self # ps)"
proof -
  from pages_run_spec [OF assms] obtain out0 where
    "spec_pages n (self_method self) (cursor_of self s) = (ps, out0, cursor_of self' s')"
    by blast
  from spec_pages_response [OF this] show ?thesis
    by (simp add: cursor_of_def)
qed

lemma single_page_run:
  assumes "next_page_token (self_response self) = []"
      and "pages_run k (Created, self, s) = (ps, out, (g, self', s'))"
  shows "self' = self \<and> s' = s"
proof (cases k)
  case 0
  with assms show ?thesis by simp
next
  case (Suc k1)
  show ?thesis
  proof (cases k1)
    case 0
    with Suc assms show ?thesis by simp
  next
    case (Suc k2)
    with \<open>k = Suc k1\<close> assms show ?thesis by simp
  qed
qed

lemma iter_run_first_step:
  "iter_run (Suc k) (IterCreated, self, s) =
     iter_run k (IterRunning Suspended (items (self_response self)), self, s)"
  by (simp add: for_page_def)

lemma iter_run_last_step:
  "next_page_token (self_response self) = [] \<Longrightarrow>
     iter_run (Suc k) (IterRunning Suspended [], self, s) =
       ([], Exhausted, (IterFinished, self, s))"
  by (simp add: for_page_def)

lemma ex_init_single:
  "pager_init ex_method 0 ex_page2 ex_env = (ex_pager\<lparr>self_response := ex_page2\<rparr>, ex_env1)"
  by (simp add: pager_init_eq ex_pager_def ex_env1_def ex_env_def)

text \<open>
  C3. A pager built from a response whose \<^verbatim>\<open>next_page_token\<close> is empty and that holds \<open>N\<close>
  items: iterating it yields exactly these \<open>N\<close> items in their order and then ends (after
  \<open>N + 2\<close> steps of the generator: one to take the page, one per item, one to find the
  end), and \<open>method\<close> is never invoked: the construction adds nothing to the call log and
  leaves the invoker's state alone, and an iteration of any number \<open>n\<close> of steps leaves
  the pager and the whole environment, call log and invoker state included, as they were.
\<close>

theorem single_page_never_invokes:
  assumes "pager_init method request response s0 = (self, s)"
      and "next_page_token response = []"
  shows "iter_run (length (items response) + 2) (IterCreated, self, s) =
           (items response, Exhausted, (IterFinished, self, s))
         \<and> calls s = calls s0 \<and> world s = world s0
         \<and> (\<exists>xs out st. iter_run n (IterCreated, self, s) = (xs, out, (st, self, s)))"
proof -
  have r: "self_response self = response"
    using assms(1) by (simp add: pager_init_eq)
  have "iter_run (Suc (length (items response) + Suc 0)) (IterCreated, self, s) =
          iter_run (length (items response) + Suc 0)
            (IterRunning Suspended (items response), self, s)"
    using r by (simp only: iter_run_first_step)
  also have "\<dots> = (items response, Exhausted, (IterFinished, self, s))"
    using r assms(2) by (simp only: iter_run_rest iter_run_last_step) simp
  finally have a: "iter_run (length (items response) + 2) (IterCreated, self, s) =
           (items response, Exhausted, (IterFinished, self, s))"
    by (simp add: numeral_2_eq_2)
  have b: "calls s = calls s0 \<and> world s = world s0"
    using assms(1) by (simp add: pager_init_eq)
  obtain xs out st self2 s2 where
    it: "iter_run n (IterCreated, self, s) = (xs, out, (st, self2, s2))"
    by (metis prod_cases3)
  have "self2 = self \<and> s2 = s"
  proof (cases n)
    case 0
    with it show ?thesis by simp
  next
    case (Suc n')
    with it have "iter_run n (IterRunning Created [], self, s) = (xs, out, (st, self2, s2))"
      by (simp del: iter_run.simps add: iter_run_Created)
    from iter_to_pages [OF this] obtain k qs g2 where
      "pages_run k (Created, self, s) = (qs, out, (g2, self2, s2))"
      by blast
    with single_page_run [of self k s qs out g2 self2 s2] r assms(2) show ?thesis by simp
  qed
  with it have "\<exists>xs out st. iter_run n (IterCreated, self, s) = (xs, out, (st, self, s))"
    by blast
  with a b show ?thesis by blast
qed

theorem single_page_never_invokes_witness:
  "pager_init ex_method 0 ex_page2 ex_env = (ex_pager\<lparr>self_response := ex_page2\<rparr>, ex_env1)
   \<and> next_page_token ex_page2 = []
   \<and> iter_run (length (items ex_page2) + 2)
        (IterCreated, ex_pager\<lparr>self_response := ex_page2\<rparr>, ex_env1) =
       (items ex_page2, Exhausted, (IterFinished, ex_pager\<lparr>self_response := ex_page2\<rparr>, ex_env1))
   \<and> calls ex_env1 = calls ex_env"
proof -
  have tok: "next_page_token ex_page2 = []"
    by (simp add: ex_page2_def)
  from single_page_never_invokes [OF ex_init_single tok] ex_init_single tok
  show ?thesis by blast
qed

text \<open>
  C4. \<^verbatim>\<open>__getattr__\<close> answers from the response the pager retains at the moment of the
  lookup. On a pager just built that is the response supplied at construction. After a
  consumer has taken pages from the \<^verbatim>\<open>pages\<close> generator (\<open>ps\<close>, the supplied response
  first and then every page fetched so far), it is the last page of \<open>ps\<close>: the page of the
  most recent successful fetch, never an earlier one; with nothing taken yet it is still
  the supplied response.
\<close>

theorem getattr_reads_latest_response:
  assumes "pager_init method request response s0 = (self, s)"
      and "pages_run n (Created, self, s) = (ps, out, (g, self', s'))"
  shows "pager_getattr getattr self name = getattr response name
         \<and> pager_getattr getattr self' name = getattr (last (response # ps)) name"
  using pages_run_response [OF assms(2)] assms(1)
  by (simp add: pager_getattr_def pager_init_eq)

theorem getattr_reads_latest_response_witness:
  "pager_init ex_method 0 ex_page1 ex_env = (ex_pager, ex_env1)
   \<and> pages_run 3 (Created, ex_pager, ex_env1) =
       ([ex_page1, ex_page2], Exhausted, (Finished, ex_pager\<lparr>self_response := ex_page2\<rparr>, ex_env2))
   \<and> pager_getattr (\<lambda>r name. if name = ''next_page_token'' then Some (next_page_token r) else None)
        ex_pager ''next_page_token'' = Some ''abc''
   \<and> pager_getattr (\<lambda>r name. if name = ''next_page_token'' then Some (next_page_token r) else None)
        (ex_pager\<lparr>self_response := ex_page2\<rparr>) ''next_page_token'' = Some []"
proof -
  have "last [ex_page1, ex_page1, ex_page2] = ex_page2"
    by simp
  moreover have "next_page_token ex_page1 = ''abc''" "next_page_token ex_page2 = []"
    by (simp_all add: ex_page1_def ex_page2_def)
  ultimately show ?thesis
    using getattr_reads_latest_response [OF ex_init ex_run3,
            of "\<lambda>r name. if name = ''next_page_token'' then Some (next_page_token r) else None"
               "''next_page_token''"]
          ex_init ex_run3
    by simp
qed


subsection \<open>A fetch that fails\<close>

lemma request_token_eq:
  "query r = query r' \<Longrightarrow> r\<lparr>page_token := t\<rparr> = (r' :: 'q ListRequest)\<lparr>page_token := t\<rparr>"
  by (cases r, cases r') simp

lemma pages_next_raises:
  assumes "next_page_token (self_response self) \<noteq> []"
      and "self_method self (world s)
             ((heap s (self_request self))\<lparr>page_token := next_page_token (self_response self)\<rparr>)
           = (Inl e, w)"
  shows "pages_run (Suc m) (Suspended, self, s) =
           ([], Raised (leaving_generator e),
            (Finished, self,
             s\<lparr>heap := (heap s)(self_request self :=
                    (heap s (self_request self))\<lparr>page_token := next_page_token (self_response self)\<rparr>),
               world := w,
               calls := calls s @
                 [(heap s (self_request self))\<lparr>page_token := next_page_token (self_response self)\<rparr>]\<rparr>))"
  using assms by (simp add: Let_def)

lemma leaving_generator_eq:
  "leaving_generator e =
     (if e = StopIterationExc then RuntimeError ''generator raised StopIteration'' else e)"
  by (cases e) simp_all

lemma ex_init_flaky:
  "pager_init ex_flaky 0 ex_page1 ex_env = (ex_pager\<lparr>self_method := ex_flaky\<rparr>, ex_env1)"
  by (simp add: pager_init_eq ex_pager_def ex_env1_def ex_env_def)

lemma ex_run_flaky:
  "pages_run 2 (Created, ex_pager\<lparr>self_method := ex_flaky\<rparr>, ex_env1) =
     ([ex_page1, ex_page3], Pending,
      (Suspended, ex_pager\<lparr>self_method := ex_flaky, self_response := ex_page3\<rparr>, ex_env2))"
  by (simp add: eval_nat_numeral ex_pager_def ex_env2_def ex_env1_def ex_env_def ex_flaky_def
        ex_page1_def ex_page3_def Let_def)

text \<open>
  C5, as stated, fails for one exception. \<^verbatim>\<open>pages\<close> is a generator function, and the call of
  \<^verbatim>\<open>method\<close> stands in its body. The callable \<open>ex_stop\<close> raises \<^verbatim>\<open>StopIteration\<close> on the first
  follow-up fetch; the consumer, after the first page, does not receive that exception
  but \<^verbatim>\<open>RuntimeError('generator raised StopIteration')\<close>.
\<close>

theorem stop_iteration_counterexample:
  "pager_init ex_stop 0 ex_page1 ex_env = (ex_pager\<lparr>self_method := ex_stop\<rparr>, ex_env1)
   \<and> pages_run 1 (Created, ex_pager\<lparr>self_method := ex_stop\<rparr>, ex_env1) =
       ([ex_page1], Pending, (Suspended, ex_pager\<lparr>self_method := ex_stop\<rparr>, ex_env1))
   \<and> next_page_token (last [ex_page1]) \<noteq> []
   \<and> ex_stop (world ex_env1) ((heap ex_env 0)\<lparr>page_token := next_page_token (last [ex_page1])\<rparr>)
       = (Inl StopIterationExc, 1)
   \<and> pages_run 2 (Created, ex_pager\<lparr>self_method := ex_stop\<rparr>, ex_env1) =
       ([ex_page1], Raised (RuntimeError ''generator raised StopIteration''),
        (Finished, ex_pager\<lparr>self_method := ex_stop\<rparr>, ex_env2))
   \<and> RuntimeError ''generator raised StopIteration'' \<noteq> (StopIterationExc :: string exc)"
  by (simp add: pager_init_eq eval_nat_numeral ex_pager_def ex_env2_def ex_env1_def ex_env_def
        ex_stop_def ex_page1_def Let_def)

text \<open>
  C5, amended. A pager built by \<^verbatim>\<open>__init__\<close> whose generator has yielded \<open>k\<close> pages (the
  supplied response and \<open>k - 1\<close> fetched ones, with one call of \<open>method\<close> for each fetched
  page), whose last page announces a further page, and whose \<open>method\<close> raises \<open>e\<close> on the
  request for that page (the \<open>k\<close>-th follow-up fetch): a consumer that goes on asking,
  however many times, has received exactly these \<open>k\<close> pages and then the exception \<open>e\<close>
  itself, unless \<open>e\<close> is a \<^verbatim>\<open>StopIteration\<close>, which reaches it as
  \<^verbatim>\<open>RuntimeError('generator raised StopIteration')\<close>. Nothing is yielded for the failed
  fetch, the retained response stays the last page, the call log grows by the one failing
  request and no more (no retry), and the generator is finished.
\<close>

theorem invoker_error_reaches_consumer:
  assumes "pager_init method request response s0 = (self, s)"
      and "pages_run k (Created, self, s) = (ps, Pending, (g, self', s'))"
      and "0 < k"
      and "next_page_token (last ps) \<noteq> []"
      and "method (world s') ((heap s0 request)\<lparr>page_token := next_page_token (last ps)\<rparr>)
             = (Inl e, w)"
  shows "length ps = k
         \<and> calls s' = calls s0 @ requests_for (heap s0 request) (butlast ps)
         \<and> pages_run (k + Suc m) (Created, self, s) =
             (ps,
              Raised (if e = StopIterationExc
                      then RuntimeError ''generator raised StopIteration'' else e),
              (Finished, self',
               s'\<lparr>heap := (heap s')(self_request self' :=
                      (heap s0 request)\<lparr>page_token := next_page_token (last ps)\<rparr>),
                  world := w,
                  calls := calls s' @
                    [(heap s0 request)\<lparr>page_token := next_page_token (last ps)\<rparr>]\<rparr>))"
proof -
  let ?req = "(heap s0 request)\<lparr>page_token := next_page_token (last ps)\<rparr>"
  let ?e = "if e = StopIterationExc then RuntimeError ''generator raised StopIteration'' else e"
  from pages_run_Pending_gen [OF assms(2,3)] have g: "g = Suspended" and len: "length ps = k"
    by simp_all
  from len assms(3) have ne: "ps \<noteq> []" by auto
  have resp: "self_response self' = last ps"
    using pages_run_response [OF assms(2)] ne by simp
  note fr = pages_run_frame [OF assms(2)]
  have meth: "self_method self' = method"
    using fr assms(1) by (simp add: pager_init_eq)
  have "query (heap s' (self_request self')) = query (heap s0 request)"
    using fr assms(1) by (simp add: pager_init_eq)
  then have req: "(heap s' (self_request self'))\<lparr>page_token := next_page_token (last ps)\<rparr> = ?req"
    by (rule request_token_eq)
  obtain out0 where sp: "spec_pages k method
           \<lparr>cur_request = heap s0 request, cur_response = response, cur_world = world s0,
            cur_calls = calls s0\<rparr> = (ps, out0, cursor_of self' s')"
    and out0: "Pending = delivered out0"
    using pages_run_spec [OF assms(2)] cursor_of_init [OF assms(1)] assms(1)
    by (auto simp: pager_init_eq)
  from spec_pages_calls [OF sp] out0
  have cl: "calls s' = calls s0 @ requests_for (heap s0 request) (butlast ps)"
    by (simp add: cursor_of_def)
  have "pages_run (Suc m) (Suspended, self', s') =
          ([], Raised (leaving_generator e),
            (Finished, self',
             s'\<lparr>heap := (heap s')(self_request self' := ?req), world := w,
                calls := calls s' @ [?req]\<rparr>))"
    using pages_next_raises [of self' s' e w m] resp meth req assms(4,5) by simp
  then have "pages_run (Suc m) (Suspended, self', s') =
          ([], Raised ?e,
            (Finished, self',
             s'\<lparr>heap := (heap s')(self_request self' := ?req), world := w,
                calls := calls s' @ [?req]\<rparr>))"
    by (simp only: leaving_generator_eq)
  with assms(2) g have "pages_run (k + Suc m) (Created, self, s) =
             (ps, Raised ?e,
              (Finished, self',
               s'\<lparr>heap := (heap s')(self_request self' := ?req), world := w,
                  calls := calls s' @ [?req]\<rparr>))"
    by (simp only: pages_run_add) simp
  with len cl show ?thesis by simp
qed

theorem invoker_error_reaches_consumer_witness:
  "pager_init ex_flaky 0 ex_page1 ex_env = (ex_pager\<lparr>self_method := ex_flaky\<rparr>, ex_env1)
   \<and> pages_run 2 (Created, ex_pager\<lparr>self_method := ex_flaky\<rparr>, ex_env1) =
       ([ex_page1, ex_page3], Pending,
        (Suspended, ex_pager\<lparr>self_method := ex_flaky, self_response := ex_page3\<rparr>, ex_env2))
   \<and> (0::nat) < 2
   \<and> next_page_token (last [ex_page1, ex_page3]) \<noteq> []
   \<and> ex_flaky (world ex_env2)
        ((heap ex_env 0)\<lparr>page_token := next_page_token (last [ex_page1, ex_page3])\<rparr>)
       = (Inl (OtherExc ''UNAVAILABLE''), 2)
   \<and> fst (pages_run (2 + Suc 5) (Created, ex_pager\<lparr>self_method := ex_flaky\<rparr>, ex_env1)) =
       [ex_page1, ex_page3]
   \<and> fst (snd (pages_run (2 + Suc 5) (Created, ex_pager\<lparr>self_method := ex_flaky\<rparr>, ex_env1))) =
       Raised (OtherExc ''UNAVAILABLE'')"
proof -
  have tok: "next_page_token (last [ex_page1, ex_page3]) \<noteq> []"
    by (simp add: ex_page3_def)
  have err: "ex_flaky (world ex_env2)
        ((heap ex_env 0)\<lparr>page_token := next_page_token (last [ex_page1, ex_page3])\<rparr>)
       = (Inl (OtherExc ''UNAVAILABLE''), 2)"
    by (simp add: ex_flaky_def ex_env2_def)
  have pos: "(0::nat) < 2"
    by simp
  from invoker_error_reaches_consumer [OF ex_init_flaky ex_run_flaky pos tok err, of 5]
  have "fst (pages_run (2 + Suc 5) (Created, ex_pager\<lparr>self_method := ex_flaky\<rparr>, ex_env1)) =
          [ex_page1, ex_page3]
        \<and> fst (snd (pages_run (2 + Suc 5) (Created, ex_pager\<lparr>self_method := ex_flaky\<rparr>, ex_env1))) =
          Raised (OtherExc ''UNAVAILABLE'')"
    by simp
  with ex_init_flaky ex_run_flaky pos tok err show ?thesis by blast
qed


subsection \<open>The caller's request\<close>

lemma agree_except_heap:
  "agree_except a s t \<Longrightarrow> b \<noteq> a \<Longrightarrow> heap s b = heap t b"
  by (simp add: agree_except_def)

lemma agree_except_refl: "agree_except a s s"
  by (simp add: agree_except_def)

lemma agree_except_assign:
  "agree_except a s t \<Longrightarrow> agree_except a (s\<lparr>heap := (heap s)(a := v)\<rparr>) t"
  by (simp add: agree_except_def)

lemma pages_next_agree:
  assumes "self_request self \<noteq> a" and "agree_except a s t"
      and "pages_next (g, self, s) = (res, (g', self', s'))"
      and "pages_next (g, self, t) = (res0, (g0, self0, t'))"
  shows "res = res0 \<and> g' = g0 \<and> self' = self0 \<and> agree_except a s' t'"
proof -
  have h: "heap s (self_request self) = heap t (self_request self)"
    using assms(1,2) by (simp add: agree_except_heap)
  have w: "world s = world t" "calls s = calls t" "next_addr s = next_addr t"
    using assms(2) by (simp_all add: agree_except_def)
  show ?thesis
  proof (cases g)
    case Created
    with assms show ?thesis by auto
  next
    case Finished
    with assms show ?thesis by auto
  next
    case Suspended
    show ?thesis
    proof (cases "next_page_token (self_response self) = []")
      case True
      with Suspended assms show ?thesis by auto
    next
      case False
      let ?req = "(heap t (self_request self))\<lparr>page_token := next_page_token (self_response self)\<rparr>"
      obtain r w' where m: "self_method self (world t) ?req = (r, w')"
        by (cases "self_method self (world t) ?req")
      have ag: "agree_except a
            (s\<lparr>heap := (heap s)(self_request self := ?req), world := w', calls := calls t @ [?req]\<rparr>)
            (t\<lparr>heap := (heap t)(self_request self := ?req), world := w', calls := calls t @ [?req]\<rparr>)"
        using assms(1,2) by (simp add: agree_except_def)
      show ?thesis
      proof (cases r)
        case (Inl e)
        with Suspended False m h w assms(3,4) ag show ?thesis
          by (auto simp: Let_def)
      next
        case (Inr page)
        with Suspended False m h w assms(3,4) ag show ?thesis
          by (auto simp: Let_def)
      qed
    qed
  qed
qed

lemma consume_agree:
  "consume a acts (g, self, s) = (rs, (g', self', s')) \<Longrightarrow>
   consume a (filter is_Next acts) (g, self, t) = (rs0, (g0, self0, t')) \<Longrightarrow>
   self_request self \<noteq> a \<Longrightarrow> agree_except a s t \<Longrightarrow>
     rs = rs0 \<and> g' = g0 \<and> self' = self0 \<and> agree_except a s' t'"
proof (induction acts arbitrary: g self s t rs rs0)
  case Nil
  then show ?case by simp
next
  case (Cons x acts)
  show ?case
  proof (cases x)
    case (Assign v)
    with Cons.prems have
      "consume a acts (g, self, s\<lparr>heap := (heap s)(a := v)\<rparr>) = (rs, (g', self', s'))"
      "consume a (filter is_Next acts) (g, self, t) = (rs0, (g0, self0, t'))"
      by simp_all
    from Cons.IH [OF this Cons.prems(3) agree_except_assign [OF Cons.prems(4)]]
    show ?thesis .
  next
    case Next
    obtain res g1 self1 s1 where n1: "pages_next (g, self, s) = (res, (g1, self1, s1))"
      by (metis prod_cases3)
    obtain res' g2 self2 t1 where n2: "pages_next (g, self, t) = (res', (g2, self2, t1))"
      by (metis prod_cases3)
    from pages_next_agree [OF Cons.prems(3,4) n1 n2]
    have eq: "res = res'" "g1 = g2" "self1 = self2" and ag: "agree_except a s1 t1"
      by simp_all
    have sr: "self_request self1 \<noteq> a"
      using pages_next_frame [OF n1] Cons.prems(3) by simp
    from Cons.prems(1) Next n1 obtain rs1 where
      c1: "consume a acts (g1, self1, s1) = (rs1, (g', self', s'))" and r1: "rs = res # rs1"
      by (auto split: prod.splits)
    from Cons.prems(2) Next n2 eq obtain rs2 where
      c2: "consume a (filter is_Next acts) (g1, self1, t1) = (rs2, (g0, self0, t'))"
      and r2: "rs0 = res # rs2"
      by (auto split: prod.splits)
    from Cons.IH [OF c1 c2 sr ag] r1 r2 show ?thesis by simp
  qed
qed

lemma consume_frame:
  "consume a (filter is_Next acts) (g, self, s) = (rs, (g', self', t)) \<Longrightarrow>
     self_request self' = self_request self \<and>
     (\<forall>b. b \<noteq> self_request self \<longrightarrow> heap t b = heap s b) \<and>
     query (heap t (self_request self)) = query (heap s (self_request self))"
proof (induction acts arbitrary: g self s rs)
  case Nil
  then show ?case by simp
next
  case (Cons x acts)
  show ?case
  proof (cases x)
    case (Assign v)
    with Cons show ?thesis by simp
  next
    case Next
    obtain res g1 self1 s1 where n1: "pages_next (g, self, s) = (res, (g1, self1, s1))"
      by (metis prod_cases3)
    from Cons.prems Next n1 obtain rs1 where
      c1: "consume a (filter is_Next acts) (g1, self1, s1) = (rs1, (g', self', t))"
      by (auto split: prod.splits)
    from Cons.IH [OF c1] pages_next_frame [OF n1] show ?thesis by simp
  qed
qed

text \<open>
  C6. \<^verbatim>\<open>__init__\<close> stores a copy of the caller's request: a new object with the same
  fields, the caller's object left as it was. For a caller that asks for pages and, at
  any points in between, overwrites its own request object: every result it is given, the
  pager, the requests handed to \<open>method\<close> and the invoker's state are those of the same
  caller without the overwriting (\<open>filter is_Next acts\<close>), and so is the pager's own
  request object. In that run without overwriting, the caller's object keeps the fields it
  had before the construction, no object but the pager's own request changes, and the
  pager's own request is the original one up to its \<^verbatim>\<open>page_token\<close>.
\<close>

theorem caller_request_is_isolated:
  assumes "request < next_addr s0"
      and "pager_init method request response s0 = (self, s)"
      and "consume request acts (Created, self, s) = (rs, (g, self', s'))"
      and "consume request (filter is_Next acts) (Created, self, s) = (rs0, (g0, self0, t))"
  shows "self_request self \<noteq> request
         \<and> heap s (self_request self) = heap s0 request \<and> heap s request = heap s0 request
         \<and> rs = rs0 \<and> g = g0 \<and> self' = self0
         \<and> calls s' = calls t \<and> world s' = world t
         \<and> heap s' (self_request self) = heap t (self_request self)
         \<and> heap t request = heap s0 request
         \<and> (\<forall>a. a \<noteq> self_request self \<longrightarrow> heap t a = heap s a)
         \<and> heap t (self_request self) =
             (heap s0 request)\<lparr>page_token := page_token (heap t (self_request self))\<rparr>"
proof -
  have ne: "self_request self \<noteq> request"
    using assms(1,2) by (auto simp: pager_init_eq)
  have cp: "heap s (self_request self) = heap s0 request" "heap s request = heap s0 request"
    using assms(1,2) by (auto simp: pager_init_eq)
  from consume_agree [OF assms(3,4) ne agree_except_refl]
  have eq: "rs = rs0" "g = g0" "self' = self0" and ag: "agree_except request s' t"
    by simp_all
  from ag have wc: "calls s' = calls t" "world s' = world t"
    by (simp_all add: agree_except_def)
  from ag ne have own: "heap s' (self_request self) = heap t (self_request self)"
    by (simp add: agree_except_heap)
  note fr = consume_frame [OF assms(4)]
  from fr ne cp have orig: "heap t request = heap s0 request"
    by simp
  from fr have others: "\<forall>a. a \<noteq> self_request self \<longrightarrow> heap t a = heap s a"
    by simp
  from fr cp have "query (heap t (self_request self)) = query (heap s0 request)"
    by simp
  then have tokonly: "heap t (self_request self) =
             (heap s0 request)\<lparr>page_token := page_token (heap t (self_request self))\<rparr>"
    by (cases "heap t (self_request self)", cases "heap s0 request") simp
  from ne cp eq wc own orig others tokonly show ?thesis by blast
qed

theorem caller_request_is_isolated_witness:
  "(0::nat) < next_addr ex_env
   \<and> pager_init ex_method 0 ex_page1 ex_env = (ex_pager, ex_env1)
   \<and> fst (consume 0 [Next, Assign \<lparr>query = ''other'', page_token = ''zzz''\<rparr>, Next, Next]
            (Created, ex_pager, ex_env1)) =
       [Yield ex_page1, Yield ex_page2, StopIteration]
   \<and> fst (consume 0
            (filter is_Next [Next, Assign \<lparr>query = ''other'', page_token = ''zzz''\<rparr>, Next, Next])
            (Created, ex_pager, ex_env1)) =
       [Yield ex_page1, Yield ex_page2, StopIteration]
   \<and> calls (snd (snd (snd
        (consume 0 [Next, Assign \<lparr>query = ''other'', page_token = ''zzz''\<rparr>, Next, Next]
           (Created, ex_pager, ex_env1))))) =
       [\<lparr>query = ''parent'', page_token = ''abc''\<rparr>]"
proof -
  let ?acts = "[Next, Assign \<lparr>query = ''other'', page_token = ''zzz''\<rparr>, Next, Next]"
  have live: "(0::nat) < next_addr ex_env"
    by (simp add: ex_env_def)
  obtain rs g self' s' where
    c1: "consume 0 ?acts (Created, ex_pager, ex_env1) = (rs, (g, self', s'))"
    by (metis prod_cases3)
  obtain rs0 g0 self0 t where
    c2: "consume 0 (filter is_Next ?acts) (Created, ex_pager, ex_env1) = (rs0, (g0, self0, t))"
    by (metis prod_cases3)
  have ev: "rs0 = [Yield ex_page1, Yield ex_page2, StopIteration]"
    "calls t = [\<lparr>query = ''parent'', page_token = ''abc''\<rparr>]"
    using c2
    by (auto simp: ex_pager_def ex_env1_def ex_env_def ex_method_def ex_page1_def ex_page2_def
          Let_def)
  from caller_request_is_isolated [OF live ex_init c1 c2]
  have "rs = rs0" "calls s' = calls t"
    by simp_all
  with ev c1 c2 live ex_init show ?thesis
    by simp
qed


subsection \<open>Invokers without state\<close>

lemma request_token_norm:
  "(r :: 'q ListRequest)\<lparr>page_token := t\<rparr> = \<lparr>query = query r, page_token = t\<rparr>"
  by (cases r) simp

lemma spec_follow_ups_pure:
  fixes c1 :: "('q, 'i, 'v) cursor" and c2 :: "('q, 'i, 'w) cursor"
  assumes "cur_response c1 = cur_response c2"
      and "query (cur_request c1) = query (cur_request c2)"
  shows "(case spec_follow_ups n (\<lambda>w req. (f req, w)) c1 of (ps, out, c) \<Rightarrow> (ps, out)) =
         (case spec_follow_ups n (\<lambda>w req. (f req, w)) c2 of (ps, out, c) \<Rightarrow> (ps, out))"
  using assms
proof (induction n arbitrary: c1 c2)
  case 0
  show ?case by simp
next
  case (Suc n)
  let ?req = "\<lparr>query = query (cur_request c2), page_token = next_page_token (cur_response c2)\<rparr>"
  show ?case
  proof (cases "f ?req")
    case (Inl e)
    with Suc.prems show ?thesis by (simp add: Let_def request_token_norm)
  next
    case (Inr r)
    let ?d1 = "c1\<lparr>cur_request := ?req, cur_response := r, cur_world := cur_world c1,
                   cur_calls := cur_calls c1 @ [?req]\<rparr>"
    let ?d2 = "c2\<lparr>cur_request := ?req, cur_response := r, cur_world := cur_world c2,
                   cur_calls := cur_calls c2 @ [?req]\<rparr>"
    have "(case spec_follow_ups n (\<lambda>w req. (f req, w)) ?d1 of (ps, out, c) \<Rightarrow> (ps, out)) =
          (case spec_follow_ups n (\<lambda>w req. (f req, w)) ?d2 of (ps, out, c) \<Rightarrow> (ps, out))"
      by (rule Suc.IH) simp_all
    with Inr Suc.prems show ?thesis
      by (simp add: Let_def request_token_norm split: prod.splits)
  qed
qed

lemma spec_pages_pure:
  fixes c1 :: "('q, 'i, 'v) cursor" and c2 :: "('q, 'i, 'w) cursor"
  assumes "cur_response c1 = cur_response c2"
      and "query (cur_request c1) = query (cur_request c2)"
      and "spec_pages n (\<lambda>w req. (f req, w)) c1 = (ps1, out1, d1)"
      and "spec_pages n (\<lambda>w req. (f req, w)) c2 = (ps2, out2, d2)"
  shows "ps1 = ps2 \<and> out1 = out2"
proof (cases n)
  case 0
  with assms show ?thesis by simp
next
  case (Suc m)
  from spec_follow_ups_pure [OF assms(1,2), of m f] assms(1,3,4) Suc show ?thesis
    by (auto split: prod.splits)
qed

text \<open>
  C7. Let \<open>method\<close> be deterministic: a function \<open>f\<close> of the request alone, that neither
  reads nor changes any state. Two pagers built by \<^verbatim>\<open>__init__\<close> from this \<open>method\<close>, from
  requests with the same fields and from the same response, in any two environments (the
  second may be the one that a traversal of the first has left), and each traversed once
  for at most \<open>n\<close> pages, give the same pages and end the same way.
\<close>

theorem fresh_pagers_yield_same_pages:
  fixes s01 :: "('q, 'v) env" and s02 :: "('q, 'w) env"
  assumes "pager_init (\<lambda>w req. (f req, w)) request1 response s01 = (self1, s1)"
      and "pager_init (\<lambda>w req. (f req, w)) request2 response s02 = (self2, s2)"
      and "heap s01 request1 = heap s02 request2"
      and "pages_run n (Created, self1, s1) = (ps1, out1, c1)"
      and "pages_run n (Created, self2, s2) = (ps2, out2, c2)"
  shows "ps1 = ps2 \<and> out1 = out2"
proof -
  obtain g1 self1' s1' where c1: "c1 = (g1, self1', s1')" by (metis prod_cases3)
  obtain g2 self2' s2' where c2: "c2 = (g2, self2', s2')" by (metis prod_cases3)
  have m: "self_method self1 = (\<lambda>w req. (f req, w))" "self_method self2 = (\<lambda>w req. (f req, w))"
    using assms(1,2) by (simp_all add: pager_init_eq)
  obtain o1 where
    sp1: "spec_pages n (\<lambda>w req. (f req, w)) (cursor_of self1 s1) = (ps1, o1, cursor_of self1' s1')"
    and o1: "out1 = delivered o1"
    using pages_run_spec [of n self1 s1 ps1 out1 g1 self1' s1'] assms(4) c1 m by auto
  obtain o2 where
    sp2: "spec_pages n (\<lambda>w req. (f req, w)) (cursor_of self2 s2) = (ps2, o2, cursor_of self2' s2')"
    and o2: "out2 = delivered o2"
    using pages_run_spec [of n self2 s2 ps2 out2 g2 self2' s2'] assms(5) c2 m by auto
  have "cur_response (cursor_of self1 s1) = cur_response (cursor_of self2 s2)"
    "query (cur_request (cursor_of self1 s1)) = query (cur_request (cursor_of self2 s2))"
    using cursor_of_init [OF assms(1)] cursor_of_init [OF assms(2)] assms(3) by simp_all
  from spec_pages_pure [OF this sp1 sp2] o1 o2 show ?thesis by simp
qed

theorem fresh_pagers_yield_same_pages_witness:
  "heap ex_env 0 = heap ex_env2 0
   \<and> fst (pages_run 3 (Created, pager_init (\<lambda>w req. (ex_lookup req, w)) 0 ex_page1 ex_env)) =
       [ex_page1, ex_page2]
   \<and> fst (pages_run 3 (Created, pager_init (\<lambda>w req. (ex_lookup req, w)) 0 ex_page1 ex_env2)) =
       [ex_page1, ex_page2]"
proof -
  obtain self1 s1 where
    i1: "pager_init (\<lambda>w req. (ex_lookup req, w)) 0 ex_page1 ex_env = (self1, s1)"
    by force
  obtain self2 s2 where
    i2: "pager_init (\<lambda>w req. (ex_lookup req, w)) 0 ex_page1 ex_env2 = (self2, s2)"
    by force
  obtain ps1 out1 c1 where r1: "pages_run 3 (Created, self1, s1) = (ps1, out1, c1)"
    by (metis prod_cases3)
  obtain ps2 out2 c2 where r2: "pages_run 3 (Created, self2, s2) = (ps2, out2, c2)"
    by (metis prod_cases3)
  have h: "heap ex_env 0 = heap ex_env2 0"
    by (simp add: ex_env2_def ex_env1_def)
  have "ps1 = [ex_page1, ex_page2]"
    using i1 r1
    by (auto simp: pager_init_eq eval_nat_numeral ex_env_def ex_lookup_def ex_page1_def
          ex_page2_def Let_def)
  moreover from fresh_pagers_yield_same_pages [OF i1 i2 h r1 r2] have "ps1 = ps2"
    by simp
  ultimately show ?thesis
    using h i1 i2 r1 r2 by simp
qed


subsection \<open>A second traversal of one pager\<close>

lemma ex_chain_run2:
  "pages_run 2 (Created, ex_pager\<lparr>self_method := ex_chain\<rparr>, ex_env1) =
     ([ex_page1, ex_page3], Pending,
      (Suspended, ex_pager\<lparr>self_method := ex_chain, self_response := ex_page3\<rparr>, ex_env2))"
  by (simp add: eval_nat_numeral ex_pager_def ex_env2_def ex_env1_def ex_env_def ex_chain_def
        ex_page1_def ex_page3_def Let_def)

lemma ex_chain_run4:
  "fst (pages_run 4 (Created, ex_pager\<lparr>self_method := ex_chain\<rparr>, ex_env1)) =
     [ex_page1, ex_page3, ex_page2]"
  by (simp add: eval_nat_numeral ex_pager_def ex_env1_def ex_env_def ex_chain_def
        ex_page1_def ex_page2_def ex_page3_def Let_def)

lemma ex_chain_second:
  "fst (pages_run 1
         (Created, ex_pager\<lparr>self_method := ex_chain, self_response := ex_page3\<rparr>, ex_env2)) =
     [ex_page3]"
  by simp

lemma ex_chain_rest:
  "fst (pages_run 2
         (Suspended, ex_pager\<lparr>self_method := ex_chain, self_response := ex_page3\<rparr>, ex_env2)) =
     [ex_page2]"
  by (simp add: eval_nat_numeral ex_pager_def ex_env2_def ex_env1_def ex_env_def ex_chain_def
        ex_page2_def ex_page3_def Let_def)

text \<open>
  C9, as stated, fails. On the three-page listing, a first generator has yielded two pages
  (\<open>k = 2\<close>): the pager retains the second page. The third response of the sequence is
  \<open>ex_page2\<close>, but a second traversal begun on this pager yields first the retained second
  page, \<open>ex_page3\<close>. (After one page only, the pager and the environment are as
  \<^verbatim>\<open>__init__\<close> left them, and a second traversal begins at the initial response again.)
\<close>

theorem second_traversal_counterexample:
  "pages_run 2 (Created, ex_pager\<lparr>self_method := ex_chain\<rparr>, ex_env1) =
     ([ex_page1, ex_page3], Pending,
      (Suspended, ex_pager\<lparr>self_method := ex_chain, self_response := ex_page3\<rparr>, ex_env2))
   \<and> fst (pages_run 4 (Created, ex_pager\<lparr>self_method := ex_chain\<rparr>, ex_env1)) ! 2 = ex_page2
   \<and> hd (fst (pages_run 1
          (Created, ex_pager\<lparr>self_method := ex_chain, self_response := ex_page3\<rparr>, ex_env2))) =
       ex_page3
   \<and> ex_page3 \<noteq> ex_page2
   \<and> pages_run 1 (Created, ex_pager\<lparr>self_method := ex_chain\<rparr>, ex_env1) =
       ([ex_page1], Pending, (Suspended, ex_pager\<lparr>self_method := ex_chain\<rparr>, ex_env1))"
  using ex_chain_run2 ex_chain_run4 ex_chain_second
  by (simp add: ex_page3_def ex_page2_def ex_page1_def ex_pager_def)

text \<open>
  C9, amended. A generator made by \<^verbatim>\<open>pages\<close> starts from the response the pager retains
  when it is first asked, not from the response supplied at construction. After a first
  generator has yielded \<open>k > 0\<close> pages \<open>ps\<close>, a second traversal begun on the same pager
  yields first the \<open>k\<close>-th page again (\<open>last ps\<close>, the retained one), and then, sharing the
  pager's request and response and the environment with the first generator, exactly the
  pages \<open>rs\<close> that the first generator would have yielded next, with the same ending and
  the same final state.
\<close>

theorem second_traversal_repeats_retained_page:
  assumes "pages_run k (Created, self, s) = (ps, Pending, (g, self', s'))"
      and "0 < k"
      and "pages_run m (Suspended, self', s') = (rs, out, c)"
  shows "length ps = k
         \<and> pages_run (Suc m) (Created, self', s') = (last ps # rs, out, c)
         \<and> pages_run (k + m) (Created, self, s) = (ps @ rs, out, c)"
proof -
  from pages_run_Pending_gen [OF assms(1,2)] have g: "g = Suspended" and len: "length ps = k"
    by simp_all
  from len assms(2) have "ps \<noteq> []" by auto
  with pages_run_response [OF assms(1)] have "self_response self' = last ps"
    by simp
  with assms(3) have a: "pages_run (Suc m) (Created, self', s') = (last ps # rs, out, c)"
    by simp
  from assms(1,3) g have b: "pages_run (k + m) (Created, self, s) = (ps @ rs, out, c)"
    by (simp only: pages_run_add) simp
  from len a b show ?thesis by simp
qed

theorem second_traversal_repeats_retained_page_witness:
  "pages_run 2 (Created, ex_pager\<lparr>self_method := ex_chain\<rparr>, ex_env1) =
     ([ex_page1, ex_page3], Pending,
      (Suspended, ex_pager\<lparr>self_method := ex_chain, self_response := ex_page3\<rparr>, ex_env2))
   \<and> (0::nat) < 2
   \<and> fst (pages_run 2
        (Suspended, ex_pager\<lparr>self_method := ex_chain, self_response := ex_page3\<rparr>, ex_env2)) =
       [ex_page2]
   \<and> fst (pages_run (Suc 2)
        (Created, ex_pager\<lparr>self_method := ex_chain, self_response := ex_page3\<rparr>, ex_env2)) =
       [ex_page3, ex_page2]
   \<and> fst (pages_run (2 + 2) (Created, ex_pager\<lparr>self_method := ex_chain\<rparr>, ex_env1)) =
       [ex_page1, ex_page3, ex_page2]"
proof -
  obtain rs out c where
    r: "pages_run 2
          (Suspended, ex_pager\<lparr>self_method := ex_chain, self_response := ex_page3\<rparr>, ex_env2) =
        (rs, out, c)"
    by (metis prod_cases3)
  with ex_chain_rest have rs: "rs = [ex_page2]"
    by simp
  have pos: "(0::nat) < 2"
    by simp
  from second_traversal_repeats_retained_page [OF ex_chain_run2 pos r] rs
  have "fst (pages_run (Suc 2)
        (Created, ex_pager\<lparr>self_method := ex_chain, self_response := ex_page3\<rparr>, ex_env2)) =
       [ex_page3, ex_page2]"
    "fst (pages_run (2 + 2) (Created, ex_pager\<lparr>self_method := ex_chain\<rparr>, ex_env1)) =
       [ex_page1, ex_page3, ex_page2]"
    by simp_all
  with ex_chain_run2 ex_chain_rest pos show ?thesis
    by blast
qed


subsection \<open>Where the sequences end\<close>

lemma pages_next_more:
  assumes "\<forall>w req. \<exists>r w'. self_method self w req = (Inr r, w') \<and> next_page_token r \<noteq> []"
      and "next_page_token (self_response self) \<noteq> []"
  obtains r s' w req w' where
    "pages_next (Suspended, self, s) = (Yield r, (Suspended, self\<lparr>self_response := r\<rparr>, s'))"
    "self_method self w req = (Inr r, w')" "next_page_token r \<noteq> []"
proof -
  let ?req = "(heap s (self_request self))\<lparr>page_token := next_page_token (self_response self)\<rparr>"
  from assms(1) obtain r w' where
    m: "self_method self (world s) ?req = (Inr r, w')" and t: "next_page_token r \<noteq> []"
    by blast
  with assms(2) have "pages_next (Suspended, self, s) =
      (Yield r, (Suspended, self\<lparr>self_response := r\<rparr>,
         s\<lparr>heap := (heap s)(self_request self := ?req), world := w', calls := calls s @ [?req]\<rparr>))"
    by (simp add: Let_def)
  with m t that show thesis by blast
qed

lemma pages_run_more:
  assumes "\<forall>w req. \<exists>r w'. method w req = (Inr r, w') \<and> next_page_token r \<noteq> []"
  shows "self_method self = method \<Longrightarrow> next_page_token (self_response self) \<noteq> [] \<Longrightarrow>
         fst (snd (pages_run n (Suspended, self, s))) = Pending \<and>
         length (fst (pages_run n (Suspended, self, s))) = n"
proof (induction n arbitrary: self s)
  case 0
  show ?case by simp
next
  case (Suc n)
  from assms Suc.prems
  have "\<forall>w req. \<exists>r w'. self_method self w req = (Inr r, w') \<and> next_page_token r \<noteq> []"
    by simp
  from pages_next_more [OF this Suc.prems(2), of s] obtain r s' where
    nx: "pages_next (Suspended, self, s) = (Yield r, (Suspended, self\<lparr>self_response := r\<rparr>, s'))"
    and t: "next_page_token r \<noteq> []"
    by metis
  from Suc.IH [of "self\<lparr>self_response := r\<rparr>" s'] Suc.prems(1) t
  have "fst (snd (pages_run n (Suspended, self\<lparr>self_response := r\<rparr>, s'))) = Pending \<and>
        length (fst (pages_run n (Suspended, self\<lparr>self_response := r\<rparr>, s'))) = n"
    by simp
  with nx show ?case by (auto simp del: pages_next.simps split: prod.splits)
qed

lemma iter_run_more:
  assumes "\<forall>w req. \<exists>r w'. method w req = (Inr r, w') \<and> next_page_token r \<noteq> []"
  shows "self_method self = method \<Longrightarrow> next_page_token (self_response self) \<noteq> [] \<Longrightarrow>
         fst (snd (iter_run n (IterRunning Suspended rest, self, s))) = Pending"
proof (induction n arbitrary: self s rest)
  case 0
  show ?case by simp
next
  case (Suc n)
  show ?case
  proof (cases rest)
    case (Cons i rest')
    from Suc.IH [OF Suc.prems, of rest' s] Cons show ?thesis by (auto split: prod.splits)
  next
    case Nil
    from assms Suc.prems
    have "\<forall>w req. \<exists>r w'. self_method self w req = (Inr r, w') \<and> next_page_token r \<noteq> []"
      by simp
    from pages_next_more [OF this Suc.prems(2), of s] obtain r s' where
      nx: "pages_next (Suspended, self, s) = (Yield r, (Suspended, self\<lparr>self_response := r\<rparr>, s'))"
      and t: "next_page_token r \<noteq> []"
      by metis
    from Suc.IH [of "self\<lparr>self_response := r\<rparr>" "items r" s'] Suc.prems(1) t
    have "fst (snd (iter_run n (IterRunning Suspended (items r), self\<lparr>self_response := r\<rparr>, s')))
            = Pending"
      by simp
    with nx Nil show ?thesis by (simp add: for_page_def del: pages_next.simps)
  qed
qed

lemma iter_run_many_items:
  assumes "\<forall>w req. \<exists>r w'. method w req = (Inr r, w') \<and> next_page_token r \<noteq> []"
      and "\<forall>w req r w'. method w req = (Inr r, w') \<longrightarrow> items r \<noteq> []"
  shows "self_method self = method \<Longrightarrow> next_page_token (self_response self) \<noteq> [] \<Longrightarrow>
         2 * n \<le> j \<Longrightarrow>
         n \<le> length (fst (iter_run j (IterRunning Suspended rest, self, s)))"
proof (induction n arbitrary: self s rest j)
  case 0
  show ?case by simp
next
  case (Suc n)
  from Suc.prems(3) obtain j2 where j: "j = Suc (Suc j2)" and j2: "2 * n \<le> j2"
    by (cases j; simp; cases "j - 1"; simp)
  show ?case
  proof (cases rest)
    case (Cons i rest')
    from j2 have "2 * n \<le> Suc j2" by simp
    from Suc.IH [OF Suc.prems(1,2) this, of rest' s] Cons j show ?thesis
      by (auto simp del: iter_run.simps simp add: iter_run.simps(2) [of "Suc j2"] split: prod.splits)
  next
    case Nil
    from assms Suc.prems
    have "\<forall>w req. \<exists>r w'. self_method self w req = (Inr r, w') \<and> next_page_token r \<noteq> []"
      by simp
    from pages_next_more [OF this Suc.prems(2), of s] obtain r s' w req w' where
      nx: "pages_next (Suspended, self, s) = (Yield r, (Suspended, self\<lparr>self_response := r\<rparr>, s'))"
      and m: "self_method self w req = (Inr r, w')"
      and t: "next_page_token r \<noteq> []"
      by metis
    from m assms(2) Suc.prems(1) have "items r \<noteq> []" by blast
    then obtain i rest' where ir: "items r = i # rest'" by (cases "items r") auto
    from Suc.IH [of "self\<lparr>self_response := r\<rparr>" j2 rest' s'] Suc.prems(1) t j2
    have "n \<le> length (fst (iter_run j2
            (IterRunning Suspended rest', self\<lparr>self_response := r\<rparr>, s')))"
      by simp
    with nx Nil ir j show ?thesis
      by (auto simp add: for_page_def simp del: pages_next.simps split: prod.splits)
  qed
qed

lemma blank_steps:
  "fst (iter_run n
     (IterRunning Suspended [], ex_pager\<lparr>self_method := ex_empty, self_response := ex_blank\<rparr>, s))
   = []"
proof (induction n arbitrary: s)
  case 0
  show ?case by simp
next
  case (Suc n)
  then show ?case
    by (simp add: for_page_def Let_def ex_empty_def ex_blank_def ex_pager_def)
qed

lemma blank_iter:
  "fst (iter_run n
     (IterCreated, ex_pager\<lparr>self_method := ex_empty, self_response := ex_blank\<rparr>, s)) = []"
proof (cases n)
  case 0
  then show ?thesis by simp
next
  case (Suc m)
  have "items ex_blank = []" by (simp add: ex_blank_def)
  with Suc blank_steps [of m s] show ?thesis
    by (simp add: iter_run_first_step del: iter_run.simps)
qed

text \<open>
  C8, as stated, fails for the item sequence. The callable \<open>ex_empty\<close> answers every
  request with a page whose \<^verbatim>\<open>next_page_token\<close> is non-empty, and so is the token of the
  response the pager is built from; but these pages hold no item. Iterating the pager then
  never ends and never yields: whatever the number of steps, no item has been given, so
  the item sequence is not unbounded (it is empty). The tokens that count include the one
  of the response supplied at construction: with \<open>ex_loop\<close>, whose answers all carry a
  non-empty token, a pager built from a response with an empty token has one page and ends.
\<close>

theorem unbounded_items_counterexample:
  "pager_init ex_empty 0 ex_blank ex_env =
     (ex_pager\<lparr>self_method := ex_empty, self_response := ex_blank\<rparr>, ex_env1)
   \<and> (\<forall>w req. ex_empty w req = (Inr ex_blank, Suc w))
   \<and> next_page_token ex_blank \<noteq> []
   \<and> (\<forall>n. fst (iter_run n
          (IterCreated, ex_pager\<lparr>self_method := ex_empty, self_response := ex_blank\<rparr>, ex_env1))
        = [])
   \<and> \<not> (\<forall>k. \<exists>n. k \<le> length (fst (iter_run n
          (IterCreated, ex_pager\<lparr>self_method := ex_empty, self_response := ex_blank\<rparr>, ex_env1))))
   \<and> (\<forall>w req. ex_loop w req = (Inr \<lparr>items = [w], next_page_token = ''more''\<rparr>, Suc w))
   \<and> pages_run 2 (Created, ex_pager\<lparr>self_method := ex_loop, self_response := ex_page2\<rparr>, ex_env1) =
       ([ex_page2], Exhausted,
        (Finished, ex_pager\<lparr>self_method := ex_loop, self_response := ex_page2\<rparr>, ex_env1))"
proof -
  have a: "pager_init ex_empty 0 ex_blank ex_env =
     (ex_pager\<lparr>self_method := ex_empty, self_response := ex_blank\<rparr>, ex_env1)"
    by (simp add: pager_init_eq ex_pager_def ex_env1_def ex_env_def)
  have b: "\<forall>w req. ex_empty w req = (Inr ex_blank, Suc w)"
    by (simp add: ex_empty_def)
  have c: "next_page_token ex_blank \<noteq> []"
    by (simp add: ex_blank_def)
  have d: "\<forall>n. fst (iter_run n
          (IterCreated, ex_pager\<lparr>self_method := ex_empty, self_response := ex_blank\<rparr>, ex_env1))
        = []"
    by (simp add: blank_iter)
  have e: "\<not> (\<forall>k. \<exists>n. k \<le> length (fst (iter_run n
          (IterCreated, ex_pager\<lparr>self_method := ex_empty, self_response := ex_blank\<rparr>, ex_env1))))"
  proof
    assume "\<forall>k. \<exists>n. k \<le> length (fst (iter_run n
          (IterCreated, ex_pager\<lparr>self_method := ex_empty, self_response := ex_blank\<rparr>, ex_env1)))"
    then obtain n where "Suc 0 \<le> length (fst (iter_run n
          (IterCreated, ex_pager\<lparr>self_method := ex_empty, self_response := ex_blank\<rparr>, ex_env1)))"
      by blast
    with d show False by simp
  qed
  have f: "\<forall>w req. ex_loop w req = (Inr \<lparr>items = [w], next_page_token = ''more''\<rparr>, Suc w)"
    by (simp add: ex_loop_def)
  have g: "pages_run 2 (Created, ex_pager\<lparr>self_method := ex_loop, self_response := ex_page2\<rparr>, ex_env1) =
       ([ex_page2], Exhausted,
        (Finished, ex_pager\<lparr>self_method := ex_loop, self_response := ex_page2\<rparr>, ex_env1))"
    by (simp add: eval_nat_numeral ex_page2_def)
  from a b c d e f g show ?thesis by blast
qed

text \<open>
  C8, amended. A \<^verbatim>\<open>pages\<close> generator that has yielded a page ends normally exactly when the
  retained response has an empty \<^verbatim>\<open>next_page_token\<close> (its first request always yields
  the retained response), and there is no bound on the number of pages. If every answer
  of \<open>method\<close> is a response with a non-empty token, and so is the retained response,
  then for every \<open>n\<close> a consumer that asks \<open>n\<close> times has \<open>n\<close> pages and the generator has
  not ended, and an item iteration of \<open>n\<close> steps has not ended either; if moreover every
  fetched page holds at least one item, the item sequence is unbounded too: \<open>2 * n + 1\<close>
  steps have given at least \<open>n\<close> items. If on the other hand the \<open>k\<close>-th page yielded has
  an empty token, the page sequence is these \<open>k\<close> pages and ends normally at any further
  request, and the item sequence is their items and ends normally.
\<close>

theorem pages_end_on_empty_token_only:
  "(fst (pages_next (Suspended, self, s)) = StopIteration
      \<longleftrightarrow> next_page_token (self_response self) = [])
   \<and> fst (pages_next (Created, self, s)) = Yield (self_response self)
   \<and> ((\<forall>w req. \<exists>r w'. self_method self w req = (Inr r, w') \<and> next_page_token r \<noteq> [])
        \<and> next_page_token (self_response self) \<noteq> [] \<longrightarrow>
          (\<exists>ps c. pages_run n (Created, self, s) = (ps, Pending, c) \<and> length ps = n)
          \<and> (\<exists>xs c. iter_run n (IterCreated, self, s) = (xs, Pending, c))
          \<and> ((\<forall>w req r w'. self_method self w req = (Inr r, w') \<longrightarrow> items r \<noteq> []) \<longrightarrow>
               (\<exists>xs c. iter_run (2 * n + 1) (IterCreated, self, s) = (xs, Pending, c)
                  \<and> n \<le> length xs)))
   \<and> (pages_run k (Created, self, s) = (ps, Pending, (g, self', s')) \<and> 0 < k
        \<and> next_page_token (last ps) = [] \<longrightarrow>
          pages_run (k + Suc m) (Created, self, s) = (ps, Exhausted, (Finished, self', s'))
          \<and> (\<exists>st. iter_run (k + Suc m + length (concat (map items ps))) (IterCreated, self, s) =
                (concat (map items ps), Exhausted, (st, self', s'))))"
proof (intro conjI impI)
  show "fst (pages_next (Suspended, self, s)) = StopIteration
      \<longleftrightarrow> next_page_token (self_response self) = []"
    by (auto simp: Let_def split: prod.splits sum.splits)
next
  show "fst (pages_next (Created, self, s)) = Yield (self_response self)"
    by simp
next
  assume h: "(\<forall>w req. \<exists>r w'. self_method self w req = (Inr r, w') \<and> next_page_token r \<noteq> [])
        \<and> next_page_token (self_response self) \<noteq> []"
  then have am: "\<forall>w req. \<exists>r w'. self_method self w req = (Inr r, w') \<and> next_page_token r \<noteq> []"
    and tok: "next_page_token (self_response self) \<noteq> []"
    by simp_all
  show "\<exists>ps c. pages_run n (Created, self, s) = (ps, Pending, c) \<and> length ps = n"
  proof (cases n)
    case 0
    then show ?thesis by simp
  next
    case (Suc j)
    from pages_run_more [OF am refl tok, of j s] Suc show ?thesis
      by (cases "pages_run j (Suspended, self, s)") auto
  qed
  show "\<exists>xs c. iter_run n (IterCreated, self, s) = (xs, Pending, c)"
  proof (cases n)
    case 0
    then show ?thesis by simp
  next
    case (Suc j)
    from iter_run_more [OF am refl tok, of j "items (self_response self)" s] Suc show ?thesis
      by (cases "iter_run j (IterRunning Suspended (items (self_response self)), self, s)")
         (auto simp: iter_run_first_step simp del: iter_run.simps)
  qed
  assume it: "\<forall>w req r w'. self_method self w req = (Inr r, w') \<longrightarrow> items r \<noteq> []"
  have le: "2 * n \<le> 2 * n" by simp
  from iter_run_many_items [OF am it refl tok le, of "items (self_response self)" s]
       iter_run_more [OF am refl tok, of "2 * n" "items (self_response self)" s]
  show "\<exists>xs c. iter_run (2 * n + 1) (IterCreated, self, s) = (xs, Pending, c) \<and> n \<le> length xs"
    by (cases "iter_run (2 * n) (IterRunning Suspended (items (self_response self)), self, s)")
       (auto simp: iter_run_first_step simp del: iter_run.simps)
next
  assume h: "pages_run k (Created, self, s) = (ps, Pending, (g, self', s')) \<and> 0 < k
        \<and> next_page_token (last ps) = []"
  then have run: "pages_run k (Created, self, s) = (ps, Pending, (g, self', s'))"
    and k: "0 < k" and tok: "next_page_token (last ps) = []"
    by simp_all
  from pages_run_Pending_gen [OF run k] have g: "g = Suspended" and len: "length ps = k"
    by simp_all
  from len k have "ps \<noteq> []" by auto
  with pages_run_response [OF run] have "self_response self' = last ps"
    by simp
  with tok have "pages_run (Suc m) (Suspended, self', s') = ([], Exhausted, (Finished, self', s'))"
    by simp
  with run g show full: "pages_run (k + Suc m) (Created, self, s) = (ps, Exhausted, (Finished, self', s'))"
    by (simp only: pages_run_add) simp
  from pages_to_iter [OF full] obtain st where
    "iter_run (k + Suc m + length (concat (map items ps))) (IterRunning Created [], self, s) =
       (concat (map items ps), Exhausted, (st, self', s'))"
    by blast
  moreover have "k + Suc m + length (concat (map items ps)) =
      Suc (k + m + length (concat (map items ps)))"
    by simp
  ultimately show "\<exists>st. iter_run (k + Suc m + length (concat (map items ps))) (IterCreated, self, s) =
                (concat (map items ps), Exhausted, (st, self', s'))"
    by (simp only: iter_run_Created) blast
qed

lemma ex_run2:
  "pages_run 2 (Created, ex_pager, ex_env1) =
     ([ex_page1, ex_page2], Pending, (Suspended, ex_pager\<lparr>self_response := ex_page2\<rparr>, ex_env2))"
  by (simp add: eval_nat_numeral ex_pager_def ex_env2_def ex_env1_def ex_env_def ex_method_def
        ex_page1_def ex_page2_def Let_def)

theorem pages_end_on_empty_token_only_witness:
  "next_page_token (self_response (ex_pager\<lparr>self_method := ex_loop\<rparr>)) \<noteq> []
   \<and> (\<exists>ps c. pages_run 3 (Created, ex_pager\<lparr>self_method := ex_loop\<rparr>, ex_env1) =
         (ps, Pending, c) \<and> length ps = 3)
   \<and> (\<exists>xs c. iter_run (2 * 3 + 1) (IterCreated, ex_pager\<lparr>self_method := ex_loop\<rparr>, ex_env1) =
         (xs, Pending, c) \<and> 3 \<le> length xs)
   \<and> pages_run 2 (Created, ex_pager, ex_env1) =
       ([ex_page1, ex_page2], Pending, (Suspended, ex_pager\<lparr>self_response := ex_page2\<rparr>, ex_env2))
   \<and> (0::nat) < 2
   \<and> next_page_token (last [ex_page1, ex_page2]) = []
   \<and> pages_run (2 + Suc 0) (Created, ex_pager, ex_env1) =
       ([ex_page1, ex_page2], Exhausted, (Finished, ex_pager\<lparr>self_response := ex_page2\<rparr>, ex_env2))"
proof -
  have more: "\<forall>w req. \<exists>r w'. self_method (ex_pager\<lparr>self_method := ex_loop\<rparr>) w req = (Inr r, w')
                \<and> next_page_token r \<noteq> []"
    by (simp add: ex_loop_def)
  have some: "\<forall>w req r w'. self_method (ex_pager\<lparr>self_method := ex_loop\<rparr>) w req = (Inr r, w')
                \<longrightarrow> items r \<noteq> []"
    by (auto simp: ex_loop_def)
  have tok: "next_page_token (self_response (ex_pager\<lparr>self_method := ex_loop\<rparr>)) \<noteq> []"
    by (simp add: ex_pager_def ex_page1_def)
  from more some tok
       pages_end_on_empty_token_only
         [where self = "ex_pager\<lparr>self_method := ex_loop\<rparr>" and s = ex_env1 and n = 3]
  have a: "(\<exists>ps c. pages_run 3 (Created, ex_pager\<lparr>self_method := ex_loop\<rparr>, ex_env1) =
         (ps, Pending, c) \<and> length ps = 3)
   \<and> (\<exists>xs c. iter_run (2 * 3 + 1) (IterCreated, ex_pager\<lparr>self_method := ex_loop\<rparr>, ex_env1) =
         (xs, Pending, c) \<and> 3 \<le> length xs)"
    by blast
  have pos: "(0::nat) < 2"
    by simp
  have last: "next_page_token (last [ex_page1, ex_page2]) = []"
    by (simp add: ex_page2_def)
  from ex_run2 pos last
       pages_end_on_empty_token_only
         [where self = ex_pager and s = ex_env1 and k = 2 and ps = "[ex_page1, ex_page2]"
            and g = Suspended and self' = "ex_pager\<lparr>self_response := ex_page2\<rparr>"
            and s' = ex_env2 and m = 0]
  have b: "pages_run (2 + Suc 0) (Created, ex_pager, ex_env1) =
       ([ex_page1, ex_page2], Exhausted, (Finished, ex_pager\<lparr>self_response := ex_page2\<rparr>, ex_env2))"
    by blast
  from tok a ex_run2 pos last b show ?thesis
    by blast
qed


subsection \<open>The transport's cache\<close>

lemma grpc_channel_step:
  assumes "grpc_channel out (self, e) = (r, (self1, e1))"
  shows "self_stubs self1 = self_stubs self \<and> stubs_made e1 = stubs_made e
    \<and> (\<forall>ch. self_grpc_channel self = Some ch \<longrightarrow> r = Inr ch \<and> self1 = self \<and> e1 = e)
    \<and> (\<forall>ch. r = Inr ch \<longrightarrow> self_grpc_channel self1 = Some ch)
    \<and> (channels_made e1 = channels_made e
        \<or> self_grpc_channel self = None \<and> self_grpc_channel self1 \<noteq> None
          \<and> length (channels_made e1) = Suc (length (channels_made e)))"
  using assms
  by (auto simp: grpc_channel_def create_channel_def split: option.splits prod.splits sum.splits)

lemma stub_property_step:
  assumes "stub_property name path ser de out (self, e) = (r, (self1, e1))"
  shows "(\<forall>ch. self_grpc_channel self = Some ch \<longrightarrow> self_grpc_channel self1 = Some ch)
    \<and> (\<forall>k st. self_stubs self k = Some st \<longrightarrow> self_stubs self1 k = Some st)
    \<and> (\<forall>st. self_stubs self name = Some st \<longrightarrow> r = Inr st \<and> self1 = self \<and> e1 = e)
    \<and> (\<forall>st. r = Inr st \<longrightarrow> self_stubs self1 name = Some st)
    \<and> (channels_made e1 = channels_made e
        \<or> self_grpc_channel self = None \<and> self_grpc_channel self1 \<noteq> None
          \<and> length (channels_made e1) = Suc (length (channels_made e)))
    \<and> (count_list (map fst (stubs_made e1)) k = count_list (map fst (stubs_made e)) k
        \<or> self_stubs self k = None \<and> self_stubs self1 k \<noteq> None
          \<and> count_list (map fst (stubs_made e1)) k = Suc (count_list (map fst (stubs_made e)) k))"
proof (cases "self_stubs self name")
  case (Some st)
  with assms show ?thesis by (auto simp: stub_property_def)
next
  case None
  obtain r0 self0 e0 where g: "grpc_channel out (self, e) = (r0, (self0, e0))"
    by (metis prod_cases3)
  note gs = grpc_channel_step [OF g]
  show ?thesis
  proof (cases r0)
    case (Inl x)
    with assms None g gs show ?thesis
      by (auto simp: stub_property_def)
  next
    case (Inr ch)
    obtain r1 w where u: "unary_unary out (lib_state e0) ch path ser de = (r1, w)"
      by (cases "unary_unary out (lib_state e0) ch path ser de")
    show ?thesis
    proof (cases r1)
      case (Inl x)
      with assms None g gs Inr u show ?thesis
        by (auto simp: stub_property_def)
    next
      case (Inr st)
      with assms None g gs \<open>r0 = Inr ch\<close> u show ?thesis
        by (auto simp: stub_property_def split: if_splits)
    qed
  qed
qed

lemma grows_refl: "grows self self"
  by (simp add: grows_def)

lemma grows_trans: "grows a b \<Longrightarrow> grows b c \<Longrightarrow> grows a c"
  by (simp add: grows_def)

lemma cached_grows: "grows self self1 \<Longrightarrow> cached q self = Some v \<Longrightarrow> cached q self1 = Some v"
  by (cases q) (auto simp: grows_def)

lemma lift_stub_step:
  assumes "lift_stub (stub_property name path ser de out (self, e)) = (r, (self1, e1))"
  shows "grows self self1
    \<and> (\<forall>st. self_stubs self name = Some st \<longrightarrow> r = Inr (Stub st) \<and> self1 = self \<and> e1 = e)
    \<and> (\<forall>v. r = Inr v \<longrightarrow> map_option Stub (self_stubs self1 name) = Some v)
    \<and> (channels_made e1 = channels_made e
        \<or> self_grpc_channel self = None \<and> self_grpc_channel self1 \<noteq> None
          \<and> length (channels_made e1) = Suc (length (channels_made e)))
    \<and> (count_list (map fst (stubs_made e1)) k = count_list (map fst (stubs_made e)) k
        \<or> self_stubs self k = None \<and> self_stubs self1 k \<noteq> None
          \<and> count_list (map fst (stubs_made e1)) k = Suc (count_list (map fst (stubs_made e)) k))"
proof -
  obtain r0 where s: "stub_property name path ser de out (self, e) = (r0, (self1, e1))"
    and r: "r = (case r0 of Inl x \<Rightarrow> Inl x | Inr st \<Rightarrow> Inr (Stub st))"
    using assms by (auto simp: lift_stub_def split: prod.splits sum.splits)
  from stub_property_step [OF s, of k] r show ?thesis
    by (auto simp: grows_def split: sum.splits)
qed

lemma lift_stub_cached_step:
  assumes "lift_stub (stub_property name path ser de out (self, e)) = (r, (self1, e1))"
      and "cached p self = map_option Stub (self_stubs self name)"
      and "cached p self1 = map_option Stub (self_stubs self1 name)"
  shows "grows self self1
    \<and> (\<forall>v. cached p self = Some v \<longrightarrow> r = Inr v \<and> self1 = self \<and> e1 = e)
    \<and> (\<forall>v. r = Inr v \<longrightarrow> cached p self1 = Some v)
    \<and> (channels_made e1 = channels_made e
        \<or> self_grpc_channel self = None \<and> self_grpc_channel self1 \<noteq> None
          \<and> length (channels_made e1) = Suc (length (channels_made e)))
    \<and> (count_list (map fst (stubs_made e1)) k = count_list (map fst (stubs_made e)) k
        \<or> self_stubs self k = None \<and> self_stubs self1 k \<noteq> None
          \<and> count_list (map fst (stubs_made e1)) k = Suc (count_list (map fst (stubs_made e)) k))"
  using lift_stub_step [OF assms(1), of k] by (auto simp: assms(2,3))

lemma read_property_step:
  assumes "read_property out p (self, e) = (r, (self1, e1))"
  shows "grows self self1
    \<and> (\<forall>v. cached p self = Some v \<longrightarrow> r = Inr v \<and> self1 = self \<and> e1 = e)
    \<and> (\<forall>v. r = Inr v \<longrightarrow> cached p self1 = Some v)
    \<and> (channels_made e1 = channels_made e
        \<or> self_grpc_channel self = None \<and> self_grpc_channel self1 \<noteq> None
          \<and> length (channels_made e1) = Suc (length (channels_made e)))
    \<and> (count_list (map fst (stubs_made e1)) k = count_list (map fst (stubs_made e)) k
        \<or> self_stubs self k = None \<and> self_stubs self1 k \<noteq> None
          \<and> count_list (map fst (stubs_made e1)) k = Suc (count_list (map fst (stubs_made e)) k))"
proof (cases p)
  case P_grpc_channel
  obtain r0 where g: "grpc_channel out (self, e) = (r0, (self1, e1))"
    and r: "r = (case r0 of Inl x \<Rightarrow> Inl x | Inr ch \<Rightarrow> Inr (Channel ch))"
    using assms P_grpc_channel by (auto split: prod.splits sum.splits)
  from grpc_channel_step [OF g] r P_grpc_channel show ?thesis
    by (auto simp: grows_def split: sum.splits)
next
  case P_create_endpoint
  with assms have "lift_stub (create_endpoint out (self, e)) = (r, (self1, e1))"
    by simp
  then show ?thesis
    unfolding create_endpoint_def by (rule lift_stub_cached_step) (simp_all add: P_create_endpoint)
next
  case P_get_endpoint
  with assms have "lift_stub (get_endpoint out (self, e)) = (r, (self1, e1))"
    by simp
  then show ?thesis
    unfolding get_endpoint_def by (rule lift_stub_cached_step) (simp_all add: P_get_endpoint)
next
  case P_list_endpoints
  with assms have "lift_stub (list_endpoints out (self, e)) = (r, (self1, e1))"
    by simp
  then show ?thesis
    unfolding list_endpoints_def by (rule lift_stub_cached_step) (simp_all add: P_list_endpoints)
next
  case P_update_endpoint
  with assms have "lift_stub (update_endpoint out (self, e)) = (r, (self1, e1))"
    by simp
  then show ?thesis
    unfolding update_endpoint_def by (rule lift_stub_cached_step) (simp_all add: P_update_endpoint)
next
  case P_delete_endpoint
  with assms have "lift_stub (delete_endpoint out (self, e)) = (r, (self1, e1))"
    by simp
  then show ?thesis
    unfolding delete_endpoint_def by (rule lift_stub_cached_step) (simp_all add: P_delete_endpoint)
next
  case P_deploy_model
  with assms have "lift_stub (deploy_model out (self, e)) = (r, (self1, e1))"
    by simp
  then show ?thesis
    unfolding deploy_model_def by (rule lift_stub_cached_step) (simp_all add: P_deploy_model)
next
  case P_undeploy_model
  with assms have "lift_stub (undeploy_model out (self, e)) = (r, (self1, e1))"
    by simp
  then show ?thesis
    unfolding undeploy_model_def by (rule lift_stub_cached_step) (simp_all add: P_undeploy_model)
qed

lemma read_properties_grows:
  "read_properties out ps (self, e) = (self2, e2) \<Longrightarrow> grows self self2"
proof (induction ps arbitrary: self e)
  case Nil
  then show ?case by (simp add: grows_refl)
next
  case (Cons p ps)
  obtain r self1 e1 where s: "read_property out p (self, e) = (r, (self1, e1))"
    by (metis prod_cases3)
  with Cons.prems have "read_properties out ps (self1, e1) = (self2, e2)"
    by simp
  from Cons.IH [OF this] read_property_step [OF s] show ?case
    by (blast intro: grows_trans)
qed

lemma read_properties_channels:
  "read_properties out ps (self, e) = (self2, e2) \<Longrightarrow>
     (self_grpc_channel self \<noteq> None \<longrightarrow> channels_made e2 = channels_made e) \<and>
     length (channels_made e2) \<le> Suc (length (channels_made e))"
proof (induction ps arbitrary: self e)
  case Nil
  then show ?case by simp
next
  case (Cons p ps)
  obtain r self1 e1 where s: "read_property out p (self, e) = (r, (self1, e1))"
    by (metis prod_cases3)
  with Cons.prems have "read_properties out ps (self1, e1) = (self2, e2)"
    by simp
  from Cons.IH [OF this] read_property_step [OF s, of undefined] show ?case
    by (auto simp: grows_def)
qed

lemma read_properties_stubs:
  "read_properties out ps (self, e) = (self2, e2) \<Longrightarrow>
     (self_stubs self k \<noteq> None \<longrightarrow>
        count_list (map fst (stubs_made e2)) k = count_list (map fst (stubs_made e)) k) \<and>
     count_list (map fst (stubs_made e2)) k \<le> Suc (count_list (map fst (stubs_made e)) k)"
proof (induction ps arbitrary: self e)
  case Nil
  then show ?case by simp
next
  case (Cons p ps)
  obtain r self1 e1 where s: "read_property out p (self, e) = (r, (self1, e1))"
    by (metis prod_cases3)
  with Cons.prems have "read_properties out ps (self1, e1) = (self2, e2)"
    by simp
  from Cons.IH [OF this] read_property_step [OF s, of k] show ?case
    by (auto simp: grows_def)
qed

text \<open>
  C10. On any transport \<open>c\<close> and for any gRPC library: once a read of a property (the
  channel or one of the seven stubs) has returned an object \<open>v\<close>, then after any further
  reads \<open>ps\<close> of any properties a read of the same property returns \<open>v\<close> again and changes
  nothing, neither the instance nor the library's state (nothing is made). Over any
  sequence of reads the library makes at most one channel for the instance and at most one
  stub for each key. A transport built with a channel \<open>ch\<close> is the same whatever the
  \<^verbatim>\<open>credentials\<close> argument, holds \<open>ch\<close> as its channel, and its property \<^verbatim>\<open>grpc_channel\<close>
  returns \<open>ch\<close> without making anything.
\<close>

theorem transport_caches_channel_and_stubs:
  "(read_property out p c = (Inr v, c1) \<and> read_properties out ps c1 = c2 \<longrightarrow>
      read_property out p c2 = (Inr v, c2))
   \<and> length (channels_made (snd (read_properties out ps c)))
       \<le> Suc (length (channels_made (snd c)))
   \<and> count_list (map fst (stubs_made (snd (read_properties out ps c)))) k
       \<le> Suc (count_list (map fst (stubs_made (snd c))) k)
   \<and> transport_init out host credentials (Some ch) =
       transport_init out host credentials2 (Some ch)
   \<and> self_grpc_channel (transport_init out host credentials (Some ch)) = Some ch
   \<and> grpc_channel out (transport_init out host credentials (Some ch), e) =
       (Inr ch, (transport_init out host credentials (Some ch), e))"
proof (intro conjI impI)
  assume h: "read_property out p c = (Inr v, c1) \<and> read_properties out ps c1 = c2"
  obtain self e where c: "c = (self, e)" by (cases c)
  obtain self1 e1 where c1: "c1 = (self1, e1)" by (cases c1)
  obtain self2 e2 where c2: "c2 = (self2, e2)" by (cases c2)
  from h c c1 have "read_property out p (self, e) = (Inr v, (self1, e1))"
    by simp
  from read_property_step [OF this, of undefined] have "cached p self1 = Some v"
    by simp
  moreover from h c1 c2 have "grows self1 self2"
    using read_properties_grows by blast
  ultimately have cd: "cached p self2 = Some v"
    by (rule cached_grows [rotated])
  obtain r self3 e3 where s: "read_property out p (self2, e2) = (r, (self3, e3))"
    by (metis prod_cases3)
  from read_property_step [OF s, of undefined] cd s c2
  show "read_property out p c2 = (Inr v, c2)"
    by simp
next
  obtain self e where c: "c = (self, e)" by (cases c)
  obtain self2 e2 where r: "read_properties out ps (self, e) = (self2, e2)"
    by (cases "read_properties out ps (self, e)")
  from read_properties_channels [OF r] c r
  show "length (channels_made (snd (read_properties out ps c)))
       \<le> Suc (length (channels_made (snd c)))"
    by simp
  from read_properties_stubs [OF r, of k] c r
  show "count_list (map fst (stubs_made (snd (read_properties out ps c)))) k
       \<le> Suc (count_list (map fst (stubs_made (snd c))) k)"
    by simp
next
  show "transport_init out host credentials (Some ch) =
       transport_init out host credentials2 (Some ch)"
    by (simp add: transport_init_def)
  show a: "self_grpc_channel (transport_init out host credentials (Some ch)) = Some ch"
    by (simp add: transport_init_def split: prod.splits)
  then show "grpc_channel out (transport_init out host credentials (Some ch), e) =
       (Inr ch, (transport_init out host credentials (Some ch), e))"
    by (simp add: grpc_channel_def)
qed

lemma ex_first_read:
  "fst (read_property ex_outside P_list_endpoints ex_transport) = Inr (Stub 1)"
  by (simp add: ex_transport_def ex_outside_def transport_init_def list_endpoints_def
        lift_stub_def stub_property_def grpc_channel_def create_channel_def)

theorem transport_caches_channel_and_stubs_witness:
  "fst (read_property ex_outside P_list_endpoints ex_transport) = Inr (Stub 1)
   \<and> fst (read_property ex_outside P_list_endpoints
        (read_properties ex_outside [P_grpc_channel, P_get_endpoint, P_list_endpoints]
           (snd (read_property ex_outside P_list_endpoints ex_transport)))) = Inr (Stub 1)"
proof -
  let ?c1 = "snd (read_property ex_outside P_list_endpoints ex_transport)"
  let ?c2 = "read_properties ex_outside [P_grpc_channel, P_get_endpoint, P_list_endpoints] ?c1"
  have r1: "read_property ex_outside P_list_endpoints ex_transport = (Inr (Stub 1), ?c1)"
    using ex_first_read by (simp add: prod_eq_iff)
  from transport_caches_channel_and_stubs
         [where out = ex_outside and p = P_list_endpoints and c = ex_transport
            and v = "Stub 1" and ?c1.0 = ?c1
            and ps = "[P_grpc_channel, P_get_endpoint, P_list_endpoints]" and ?c2.0 = ?c2]
       r1
  have "read_property ex_outside P_list_endpoints ?c2 = (Inr (Stub 1), ?c2)"
    by blast
  with ex_first_read show ?thesis
    by simp
qed

end
